theory Spec2Isabelle
  imports Complex_Main "HOL-Library.DAList"
begin

section \<open>JavaScript values used by the pipeline\<close>

text \<open>
  The candles carry JavaScript numbers, that is binary64 floating-point values. A number is
  modelled as a rational, one of the two infinities, or \<open>NaN\<close>; zero is unsigned. The result
  of \<open>+\<close>, \<open>-\<close>, \<open>*\<close> and \<open>/\<close> on finite values is the exact result rounded to binary64:
  to the nearest value with a significand of 53 bits, ties to the even significand, with
  gradual underflow below \<open>2 ^ (-1022)\<close> and an infinity from \<open>2 ^ 1024\<close> on. Comparisons,
  \<open>Math.max\<close>, \<open>Math.min\<close> and \<open>Math.abs\<close> do not round. A field of a candle is a number,
  as \<open>parseFloat\<close> leaves it in \<open>formatData\<close>, or \<open>undefined\<close> (\<open>None\<close>); every arithmetic or
  comparison context coerces \<open>undefined\<close> to \<open>NaN\<close>, as \<open>ToNumber\<close> does.
\<close>

datatype jsnum = NaN | NegInf | Fin rat | PosInf

type_synonym jsval = "jsnum option"

fun toNumber :: "jsval \<Rightarrow> jsnum" where
  "toNumber None = NaN"
| "toNumber (Some x) = x"

fun isNaN :: "jsval \<Rightarrow> bool" where
  "isNaN v = (toNumber v = NaN)"

text \<open>
  The number of bits of a positive integer; the power of two with an integer exponent; the
  integer part of the binary logarithm of a positive rational; the nearest integer, ties to
  even.
\<close>

function bits :: "int \<Rightarrow> int" where
  "bits n = (if n \<le> 0 then 0 else 1 + bits (n div 2))"
  by pat_completeness auto
termination
proof (relation "measure nat")
  show "wf (measure nat)"
    by simp
  show "(n div 2, n) \<in> measure nat" if "\<not> n \<le> 0" for n :: int
    using that by (simp add: in_measure)
qed

declare bits.simps [simp del]

definition pow2 :: "int \<Rightarrow> rat" where
  "pow2 k = (if 0 \<le> k then 2 ^ nat k else 1 / 2 ^ nat (- k))"

definition ilog2 :: "rat \<Rightarrow> int" where
  "ilog2 a =
     (let k = bits (fst (quotient_of a)) - bits (snd (quotient_of a))
      in if pow2 k \<le> a then k else k - 1)"

definition round_even :: "rat \<Rightarrow> int" where
  "round_even x =
     (let f = \<lfloor>x\<rfloor>; r = x - of_int f
      in if r < 1 / 2 then f else if 1 / 2 < r then f + 1 else if even f then f else f + 1)"

text \<open>The binary64 value of an exact result.\<close>

definition binary64 :: "rat \<Rightarrow> jsnum" where
  "binary64 q =
     (if q = 0 then Fin 0
      else (let e = max (ilog2 \<bar>q\<bar>) (- 1022);
                u = pow2 (e - 52);
                r = of_int (round_even (\<bar>q\<bar> / u)) * u
            in if 1024 \<le> ilog2 r then (if q < 0 then NegInf else PosInf)
               else Fin (if q < 0 then - r else r)))"

fun js_neg :: "jsnum \<Rightarrow> jsnum" where
  "js_neg NaN = NaN"
| "js_neg NegInf = PosInf"
| "js_neg PosInf = NegInf"
| "js_neg (Fin a) = Fin (- a)"

fun js_add :: "jsnum \<Rightarrow> jsnum \<Rightarrow> jsnum" where
  "js_add (Fin a) (Fin b) = binary64 (a + b)"
| "js_add NaN y = NaN"
| "js_add x NaN = NaN"
| "js_add PosInf NegInf = NaN"
| "js_add NegInf PosInf = NaN"
| "js_add PosInf y = PosInf"
| "js_add NegInf y = NegInf"
| "js_add x PosInf = PosInf"
| "js_add x NegInf = NegInf"

definition js_sub :: "jsnum \<Rightarrow> jsnum \<Rightarrow> jsnum" where
  "js_sub x y = js_add x (js_neg y)"

text \<open>The sign of a number: \<open>-1\<close>, \<open>0\<close> or \<open>1\<close>; \<open>NaN\<close> has none.\<close>

fun js_sign :: "jsnum \<Rightarrow> int option" where
  "js_sign NaN = None"
| "js_sign NegInf = Some (- 1)"
| "js_sign PosInf = Some 1"
| "js_sign (Fin a) = Some (if a < 0 then - 1 else if a = 0 then 0 else 1)"

definition signed_inf :: "int \<Rightarrow> jsnum" where
  "signed_inf s = (if s < 0 then NegInf else if s = 0 then NaN else PosInf)"

fun js_mul :: "jsnum \<Rightarrow> jsnum \<Rightarrow> jsnum" where
  "js_mul (Fin a) (Fin b) = binary64 (a * b)"
| "js_mul x y =
     (case (js_sign x, js_sign y) of
        (Some s, Some t) \<Rightarrow> signed_inf (s * t)
      | _ \<Rightarrow> NaN)"

fun js_div :: "jsnum \<Rightarrow> jsnum \<Rightarrow> jsnum" where
  "js_div NaN y = NaN"
| "js_div x NaN = NaN"
| "js_div (Fin a) (Fin b) =
     (if b = 0 then signed_inf (if a < 0 then - 1 else if a = 0 then 0 else 1)
      else binary64 (a / b))"
| "js_div (Fin a) y = Fin 0"
| "js_div x (Fin b) =
     (case js_sign x of Some s \<Rightarrow> signed_inf (if b < 0 then - s else s) | None \<Rightarrow> NaN)"
| "js_div x y = NaN"

fun js_abs :: "jsnum \<Rightarrow> jsnum" where
  "js_abs NaN = NaN"
| "js_abs NegInf = PosInf"
| "js_abs PosInf = PosInf"
| "js_abs (Fin a) = Fin \<bar>a\<bar>"

text \<open>\<open>x > y\<close>: false as soon as one side is \<open>NaN\<close>.\<close>

fun js_gt :: "jsnum \<Rightarrow> jsnum \<Rightarrow> bool" where
  "js_gt NaN y = False"
| "js_gt x NaN = False"
| "js_gt (Fin a) (Fin b) = (b < a)"
| "js_gt PosInf y = (y \<noteq> PosInf)"
| "js_gt x NegInf = (x \<noteq> NegInf)"
| "js_gt x y = False"

definition js_max2 :: "jsnum \<Rightarrow> jsnum \<Rightarrow> jsnum" where
  "js_max2 x y = (if x = NaN \<or> y = NaN then NaN else if js_gt y x then y else x)"

definition js_min2 :: "jsnum \<Rightarrow> jsnum \<Rightarrow> jsnum" where
  "js_min2 x y = (if x = NaN \<or> y = NaN then NaN else if js_gt x y then y else x)"

text \<open>\<open>Math.max(...xs)\<close> and \<open>Math.min(...xs)\<close>; on no arguments they are the infinities.\<close>

definition Math_max :: "jsnum list \<Rightarrow> jsnum" where
  "Math_max xs = foldl js_max2 NegInf xs"

definition Math_min :: "jsnum list \<Rightarrow> jsnum" where
  "Math_min xs = foldl js_min2 PosInf xs"

text \<open>
  What a \<open>throw\<close> carries: a \<open>TypeError\<close>, an \<open>Error\<close> with its message, or the value
  \<open>undefined\<close>. \<open>xs.reduce(f)\<close> without an initial value raises a \<open>TypeError\<close> on the
  empty array.
\<close>

datatype error = TypeError | Error string | Undefined_thrown

fun reduce1 :: "('a \<Rightarrow> 'a \<Rightarrow> 'a) \<Rightarrow> 'a list \<Rightarrow> error + 'a" where
  "reduce1 f [] = Inl TypeError"
| "reduce1 f (x # xs) = Inr (foldl f x xs)"

section \<open>Data model\<close>

text \<open>
  A calendar day \<open>YYYY-MM-DD\<close> is its day number; \<open>new Date(a.date) - new Date(b.date)\<close>
  has the sign of the difference of the day numbers.
\<close>

record dated =
  date :: int

record kline = dated +
  "open" :: jsval
  high :: jsval
  low :: jsval
  close :: jsval
  volume :: jsval
  quoteVolume :: jsval

text \<open>
  A plain object keyed by exchange name keeps its keys in insertion order and has each key
  once: an association list with distinct keys, where an assignment to a present key
  replaces the value in place and one to a new key appends.
\<close>

record merged_day = dated +
  exchanges :: "(string, kline) alist"

definition keys :: "('k, 'v) alist \<Rightarrow> 'k list" where
  "keys m = map fst (DAList.impl_of m)"

definition vals :: "('k, 'v) alist \<Rightarrow> 'v list" where
  "vals m = map snd (DAList.impl_of m)"

section \<open>Merger: \<open>mergeExchangeData\<close>\<close>

text \<open>What \<open>fetchExchangeData\<close> returns for one exchange; \<open>None\<close> is a missing \<open>data\<close>.\<close>

record fetched =
  name :: string
  data :: "kline list option"

text \<open>The body of the inner \<open>forEach\<close>: one candle of the exchange \<open>nm\<close>.\<close>

definition merge_day :: "string \<Rightarrow> kline \<Rightarrow> (int, merged_day) alist \<Rightarrow> (int, merged_day) alist" where
  "merge_day nm dayData mergedMap =
     (let m = (if DAList.lookup mergedMap (date dayData) = None
               then DAList.update (date dayData)
                      \<lparr>date = date dayData, exchanges = DAList.empty\<rparr> mergedMap
               else mergedMap)
      in DAList.map_entry (date dayData)
           (\<lambda>r. r\<lparr>exchanges := DAList.update nm dayData (exchanges r)\<rparr>) m)"

text \<open>The body of the outer \<open>forEach\<close>: a null result or one without data is skipped.\<close>

definition merge_result :: "fetched option \<Rightarrow> (int, merged_day) alist \<Rightarrow> (int, merged_day) alist" where
  "merge_result result mergedMap =
     (case result of
        None \<Rightarrow> mergedMap
      | Some r \<Rightarrow> (case data r of
                     None \<Rightarrow> mergedMap
                   | Some ks \<Rightarrow> fold (merge_day (name r)) ks mergedMap))"

definition mergeExchangeData :: "fetched option list \<Rightarrow> merged_day list" where
  "mergeExchangeData results = sort_key date (vals (fold merge_result results DAList.empty))"

section \<open>Validator: \<open>validateData\<close>\<close>

text \<open>
  An anomaly entry is a tagged variant; each carries the date of the day and the exchange
  names and measured values that the source stores in the entry.
\<close>

datatype anomaly =
    PriceDeviation int "string list" jsnum jsnum
  | VolumeSpike int string jsval jsnum
  | MissingData int "string list"
  | PriceGap int string jsnum jsval jsval

fun anomaly_date :: "anomaly \<Rightarrow> int" where
  "anomaly_date (PriceDeviation d es maxDiff diffPercent) = d"
| "anomaly_date (VolumeSpike d e v avgVolume) = d"
| "anomaly_date (MissingData d es) = d"
| "anomaly_date (PriceGap d e gapPercent prevClose currOpen) = d"

record anomalies =
  priceDiff :: "anomaly list"
  volumeSpikes :: "anomaly list"
  dataMissing :: "anomaly list"
  priceGaps :: "anomaly list"

record stats =
  totalDays :: nat
  validDays :: nat
  exchangeCoverage :: "(string, nat) alist"

record validation =
  valid :: "merged_day list"
  anomalies :: anomalies
  stats :: stats

definition validationResults0 :: validation where
  "validationResults0 =
     \<lparr>valid = [],
      anomalies = \<lparr>priceDiff = [], volumeSpikes = [], dataMissing = [], priceGaps = []\<rparr>,
      stats = \<lparr>totalDays = 0, validDays = 0, exchangeCoverage = DAList.empty\<rparr>\<rparr>"

text \<open>
  \<open>forEach\<close> with a body that may throw: the first exception ends the loop.
\<close>

fun forEach :: "('a \<Rightarrow> 's \<Rightarrow> error + 's) \<Rightarrow> 'a list \<Rightarrow> 's \<Rightarrow> error + 's" where
  "forEach f [] s = Inr s"
| "forEach f (x # xs) s = (case f x s of Inl e \<Rightarrow> Inl e | Inr s' \<Rightarrow> forEach f xs s')"

text \<open>
  \<open>obj[key].field\<close>: reading a field of \<open>undefined\<close> raises a \<open>TypeError\<close>.
\<close>

definition record_of :: "(string, kline) alist \<Rightarrow> string \<Rightarrow> error + kline" where
  "record_of obj e = (case DAList.lookup obj e of None \<Rightarrow> Inl TypeError | Some k \<Rightarrow> Inr k)"

fun members :: "(string, kline) alist \<Rightarrow> string list \<Rightarrow> error + kline list" where
  "members obj [] = Inr []"
| "members obj (e # es) =
     (case record_of obj e of
        Inl err \<Rightarrow> Inl err
      | Inr k \<Rightarrow> (case members obj es of Inl err \<Rightarrow> Inl err | Inr ks \<Rightarrow> Inr (k # ks)))"

text \<open>
  \<open>calculateAverageVolume\<close>: the window is the up to 30 entries before \<open>currentIndex\<close>;
  an entry without the exchange, or without a volume, gives \<open>undefined\<close> and is filtered out.
\<close>

definition windowSize :: nat where
  "windowSize = 30"

definition slice :: "nat \<Rightarrow> nat \<Rightarrow> 'a list \<Rightarrow> 'a list" where
  "slice i j xs = take (j - i) (drop i xs)"

definition window_volumes :: "merged_day list \<Rightarrow> string \<Rightarrow> nat \<Rightarrow> jsnum list" where
  "window_volumes dat exchange currentIndex =
     (let startIndex = (if windowSize \<le> currentIndex then currentIndex - windowSize else 0)
      in List.map_filter
           (\<lambda>d. case DAList.lookup (exchanges d) exchange of None \<Rightarrow> None | Some k \<Rightarrow> volume k)
           (slice startIndex currentIndex dat))"

definition calculateAverageVolume :: "merged_day list \<Rightarrow> string \<Rightarrow> nat \<Rightarrow> error + jsnum" where
  "calculateAverageVolume dat exchange currentIndex =
     (let volumes = window_volumes dat exchange currentIndex
      in if length volumes > 0
         then (case reduce1 js_add volumes of
                 Inl err \<Rightarrow> Inl err
               | Inr s \<Rightarrow> Inr (js_div s (Fin (of_nat (length volumes)))))
         else Inr (Fin 0))"

text \<open>
  The state of one iteration of the loop over the days: the results so far and the flag
  \<open>isValidDay\<close>.
\<close>

type_synonym day_state = "validation \<times> bool"

definition push_dataMissing :: "anomaly \<Rightarrow> validation \<Rightarrow> validation" where
  "push_dataMissing a vr = vr\<lparr>anomalies := (anomalies vr)\<lparr>dataMissing := dataMissing (anomalies vr) @ [a]\<rparr>\<rparr>"

definition push_priceDiff :: "anomaly \<Rightarrow> validation \<Rightarrow> validation" where
  "push_priceDiff a vr = vr\<lparr>anomalies := (anomalies vr)\<lparr>priceDiff := priceDiff (anomalies vr) @ [a]\<rparr>\<rparr>"

definition push_volumeSpikes :: "anomaly \<Rightarrow> validation \<Rightarrow> validation" where
  "push_volumeSpikes a vr = vr\<lparr>anomalies := (anomalies vr)\<lparr>volumeSpikes := volumeSpikes (anomalies vr) @ [a]\<rparr>\<rparr>"

definition push_priceGaps :: "anomaly \<Rightarrow> validation \<Rightarrow> validation" where
  "push_priceGaps a vr = vr\<lparr>anomalies := (anomalies vr)\<lparr>priceGaps := priceGaps (anomalies vr) @ [a]\<rparr>\<rparr>"

text \<open>1. Basic data completeness check.\<close>

definition dataCompleteness :: "merged_day \<Rightarrow> bool" where
  "dataCompleteness dayData =
     list_all (\<lambda>exchange.
        case DAList.lookup (exchanges dayData) exchange of
          None \<Rightarrow> False
        | Some dat \<Rightarrow> \<not> isNaN (open dat) \<and> \<not> isNaN (high dat) \<and> \<not> isNaN (low dat)
                      \<and> \<not> isNaN (close dat) \<and> \<not> isNaN (volume dat))
       (keys (exchanges dayData))"

definition check_completeness :: "merged_day \<Rightarrow> day_state \<Rightarrow> day_state" where
  "check_completeness dayData st =
     (if \<not> dataCompleteness dayData
      then (push_dataMissing (MissingData (date dayData) (keys (exchanges dayData))) (fst st), False)
      else st)"

text \<open>2. Price anomaly check.\<close>

definition check_price :: "merged_day \<Rightarrow> day_state \<Rightarrow> error + day_state" where
  "check_price dayData st =
     (let exs = keys (exchanges dayData) in
      if length exs > 1
      then (case members (exchanges dayData) exs of
              Inl err \<Rightarrow> Inl err
            | Inr ks \<Rightarrow>
               (let prices = map (\<lambda>k. toNumber (close k)) ks in
                case reduce1 js_add prices of
                  Inl err \<Rightarrow> Inl err
                | Inr s \<Rightarrow>
                   (let avgPrice = js_div s (Fin (of_nat (length prices)));
                        maxDiff = js_sub (Math_max prices) (Math_min prices);
                        diffPercent = js_mul (js_div maxDiff avgPrice) (Fin 100)
                    in if js_gt diffPercent (Fin 1)
                       then Inr (push_priceDiff
                                   (PriceDeviation (date dayData) exs maxDiff diffPercent) (fst st),
                                 False)
                       else Inr st)))
      else Inr st)"

text \<open>3. Volume spike check, the body of the loop over the exchanges of the day.\<close>

definition check_volume :: "merged_day list \<Rightarrow> nat \<Rightarrow> merged_day \<Rightarrow> string \<Rightarrow> day_state \<Rightarrow> error + day_state" where
  "check_volume mergedData index dayData exchange st =
     (case record_of (exchanges dayData) exchange of
        Inl err \<Rightarrow> Inl err
      | Inr dat \<Rightarrow>
         (case calculateAverageVolume mergedData exchange index of
            Inl err \<Rightarrow> Inl err
          | Inr avgVolume \<Rightarrow>
             if js_gt (toNumber (volume dat)) (js_mul avgVolume (Fin 3))
             then Inr (push_volumeSpikes
                         (VolumeSpike (date dayData) exchange (volume dat) avgVolume) (fst st),
                       False)
             else Inr st))"

text \<open>4. Price gap check, the body of the loop over the exchanges of the day.\<close>

definition check_gap :: "merged_day list \<Rightarrow> nat \<Rightarrow> merged_day \<Rightarrow> string \<Rightarrow> day_state \<Rightarrow> day_state" where
  "check_gap mergedData index dayData exchange st =
     (case (DAList.lookup (exchanges (mergedData ! (index - 1))) exchange,
            DAList.lookup (exchanges dayData) exchange) of
        (Some prevData, Some currData) \<Rightarrow>
          (let prevClose = close prevData;
               currOpen = open currData;
               gapPercent = js_mul (js_abs (js_div (js_sub (toNumber currOpen) (toNumber prevClose))
                                                   (toNumber prevClose))) (Fin 100)
           in if js_gt gapPercent (Fin 5)
              then (push_priceGaps
                      (PriceGap (date dayData) exchange gapPercent prevClose currOpen) (fst st),
                    False)
              else st)
      | _ \<Rightarrow> st)"

text \<open>
  The coverage update of one exchange: a missing or zero counter is set to \<open>0\<close>, then the
  counter is incremented.
\<close>

definition cover :: "string \<Rightarrow> (string, nat) alist \<Rightarrow> (string, nat) alist" where
  "cover exchange cov =
     DAList.map_entry exchange Suc
       (if DAList.lookup cov exchange = None \<or> DAList.lookup cov exchange = Some 0
        then DAList.update exchange 0 cov else cov)"

definition update_statistics :: "merged_day \<Rightarrow> day_state \<Rightarrow> validation" where
  "update_statistics dayData st =
     (let vr = (fst st)\<lparr>stats := (stats (fst st))\<lparr>totalDays := totalDays (stats (fst st)) + 1\<rparr>\<rparr>
      in if snd st
         then vr\<lparr>valid := valid vr @ [dayData],
                 stats := (stats vr)\<lparr>validDays := validDays (stats vr) + 1,
                            exchangeCoverage :=
                              fold cover (keys (exchanges dayData)) (exchangeCoverage (stats vr))\<rparr>\<rparr>
         else vr)"

text \<open>The body of the loop over the days.\<close>

definition validate_day :: "merged_day list \<Rightarrow> merged_day \<times> nat \<Rightarrow> validation \<Rightarrow> error + validation" where
  "validate_day mergedData p validationResults =
     (let dayData = fst p; index = snd p; exs = keys (exchanges dayData);
          st1 = check_completeness dayData (validationResults, True)
      in case check_price dayData st1 of
           Inl err \<Rightarrow> Inl err
         | Inr st2 \<Rightarrow>
            (case forEach (check_volume mergedData index dayData) exs st2 of
               Inl err \<Rightarrow> Inl err
             | Inr st3 \<Rightarrow>
                (let st4 = (if index > 0 then fold (check_gap mergedData index dayData) exs st3
                            else st3)
                 in Inr (update_statistics dayData st4))))"

definition validateData :: "merged_day list \<Rightarrow> error + validation" where
  "validateData mergedData =
     forEach (validate_day mergedData) (zip mergedData [0..<length mergedData]) validationResults0"

section \<open>Fetch clients\<close>

text \<open>
  The network is the environment. One pass of a retry loop meets one of three events: the
  DNS lookup of the host fails, the lookup succeeds and the HTTP request throws, or the
  request answers. The clients' observable steps are recorded in a trace; the times slept
  are in milliseconds.
\<close>

datatype 'd attempt = DnsDown | RequestFailed error | Response 'd

datatype action = Probe string | Get string | Switch string | Sleep nat

subsection \<open>\<open>PriceFetcher\<close>\<close>

definition API_ENDPOINTS :: "string list" where
  "API_ENDPOINTS =
     [''https://api.binance.com'', ''https://api1.binance.com'', ''https://api2.binance.com'',
      ''https://api3.binance.com'', ''https://api-apac.binance.com'', ''https://api-eu.binance.com'']"



record fetcher =
  currentEndpointIndex :: nat
  baseURL :: string
  trace :: "action list"

definition PriceFetcher :: fetcher where
  "PriceFetcher = \<lparr>currentEndpointIndex = 0, baseURL = API_ENDPOINTS ! 0, trace = []\<rparr>"

definition emit :: "action \<Rightarrow> fetcher \<Rightarrow> fetcher" where
  "emit a f = f\<lparr>trace := trace f @ [a]\<rparr>"

definition switchEndpoint :: "fetcher \<Rightarrow> fetcher" where
  "switchEndpoint f =
     (let i = (currentEndpointIndex f + 1) mod length API_ENDPOINTS
      in emit (Switch (API_ENDPOINTS ! i)) (f\<lparr>currentEndpointIndex := i, baseURL := API_ENDPOINTS ! i\<rparr>))"



text \<open>
  \<open>fetchAllData\<close>: each pass of the \<open>while\<close> loop takes the outcome of one call of
  \<open>fetchKlines\<close>, that is of \<open>makeRequest\<close>: an exception, \<open>undefined\<close>, or an array of rows.
  The closing time of a row is read by \<open>closeTime\<close>. A run that has used all the outcomes
  it was given without leaving the loop is still awaiting one.
\<close>

datatype ('a, 's) run = Returned "'a list" | Raised error | Awaiting 's

record 'r progress =
  allData :: "'r list"
  currentStartTime :: int
  failureCount :: nat

definition MAX_FAILURES :: nat where
  "MAX_FAILURES = 10"

fun fetchAllData_loop ::
  "('r \<Rightarrow> int) \<Rightarrow> int \<Rightarrow> (error + 'r list option) list \<Rightarrow> 'r progress \<times> fetcher
     \<Rightarrow> ('r, 'r progress \<times> fetcher) run" where
  "fetchAllData_loop closeTime endTime [] (p, f) =
     (if currentStartTime p < endTime then Awaiting (p, f) else Returned (allData p))"
| "fetchAllData_loop closeTime endTime (reply # rest) (p, f) =
     (if currentStartTime p < endTime
      then (case reply of
              Inr None \<Rightarrow> Returned (allData p)
            | Inr (Some rows) \<Rightarrow>
                if rows = [] then Returned (allData p)
                else fetchAllData_loop closeTime endTime rest
                       (p\<lparr>allData := allData p @ rows,
                          currentStartTime := closeTime (last rows) + 1,
                          failureCount := 0\<rparr>,
                        if length (allData p @ rows) mod 100 = 0
                        then emit (Sleep 2000) (emit (Sleep 300) f) else emit (Sleep 300) f)
            | Inl err \<Rightarrow>
                if failureCount p + 1 \<ge> MAX_FAILURES then Returned (allData p)
                else fetchAllData_loop closeTime endTime rest
                       (p\<lparr>failureCount := failureCount p + 1\<rparr>,
                        switchEndpoint (emit (Sleep 5000) f)))
      else Returned (allData p))"

definition fetchAllData ::
  "('r \<Rightarrow> int) \<Rightarrow> int \<Rightarrow> int \<Rightarrow> (error + 'r list option) list \<Rightarrow> fetcher
     \<Rightarrow> ('r, 'r progress \<times> fetcher) run" where
  "fetchAllData closeTime startTime endTime replies f =
     fetchAllData_loop closeTime endTime replies
       (\<lparr>allData = [], currentStartTime = startTime, failureCount = 0\<rparr>, f)"

subsection \<open>\<open>BaseExchange\<close> and \<open>OKXExchange\<close>\<close>




record okx =
  currentUrlIndex :: nat
  baseUrl :: string
  currentProxyIndex :: nat

definition backupUrls :: "string list" where
  "backupUrls = [''https://www.okx.com'', ''https://aws.okx.com'', ''https://okx.com'',
                 ''https://api.okx.com'']"

definition proxies :: "string list" where
  "proxies = [''http://51.159.115.233:3128'', ''http://165.225.208.243:10605'',
              ''http://165.225.208.77:10605'', ''http://165.225.208.243:10605'',
              ''http://165.225.208.77:10605'']"

definition OKXExchange :: okx where
  "OKXExchange = \<lparr>currentUrlIndex = 0, baseUrl = ''https://www.okx.com'', currentProxyIndex = 0\<rparr>"

definition OKX_switchEndpoint :: "okx \<Rightarrow> okx" where
  "OKX_switchEndpoint x =
     (let i = (currentUrlIndex x + 1) mod (length backupUrls + 1)
      in x\<lparr>currentUrlIndex := i,
            baseUrl := (if i = 0 then ''https://www.okx.com'' else backupUrls ! (i - 1))\<rparr>)"

definition switchProxy :: "okx \<Rightarrow> okx" where
  "switchProxy x = x\<lparr>currentProxyIndex := (currentProxyIndex x + 1) mod length proxies\<rparr>"

text \<open>
  \<open>OKXExchange.fetchKlines\<close>: each pass takes the outcome of one call of
  \<open>BaseExchange.makeRequest\<close>, an exception or a response whose \<open>data\<close> is missing or an
  array of rows. The opening time of a row is read by \<open>openTime\<close>; \<open>formatData\<close> maps the
  rows with \<open>format\<close>. The sleeps between the passes change nothing of the client and are
  left out.
\<close>

fun OKX_fetchKlines_loop ::
  "('r \<Rightarrow> int) \<Rightarrow> ('r \<Rightarrow> 'k) \<Rightarrow> int \<Rightarrow> (error + 'r list option) list \<Rightarrow> 'r progress \<times> okx
     \<Rightarrow> ('k, 'r progress \<times> okx) run" where
  "OKX_fetchKlines_loop openTime format endTime [] (p, x) =
     (if currentStartTime p < endTime then Awaiting (p, x) else Returned (map format (allData p)))"
| "OKX_fetchKlines_loop openTime format endTime (reply # rest) (p, x) =
     (if currentStartTime p < endTime
      then (case reply of
              Inr None \<Rightarrow> Returned (map format (allData p))
            | Inr (Some rows) \<Rightarrow>
                if rows = [] then Returned (map format (allData p))
                else OKX_fetchKlines_loop openTime format endTime rest
                       (p\<lparr>allData := allData p @ rows,
                          currentStartTime := openTime (last rows) + 1,
                          failureCount := 0\<rparr>, switchProxy x)
            | Inl err \<Rightarrow>
                if failureCount p + 1 \<ge> MAX_FAILURES
                then Raised (Error ''Too many consecutive failures'')
                else OKX_fetchKlines_loop openTime format endTime rest
                       (p\<lparr>failureCount := failureCount p + 1\<rparr>,
                        OKX_switchEndpoint (switchProxy x)))
      else Returned (map format (allData p)))"

definition OKX_fetchKlines ::
  "('r \<Rightarrow> int) \<Rightarrow> ('r \<Rightarrow> 'k) \<Rightarrow> int \<Rightarrow> int \<Rightarrow> (error + 'r list option) list \<Rightarrow> okx
     \<Rightarrow> ('k, 'r progress \<times> okx) run" where
  "OKX_fetchKlines openTime format startTime endTime replies x =
     OKX_fetchKlines_loop openTime format endTime replies
       (\<lparr>allData = [], currentStartTime = startTime, failureCount = 0\<rparr>, x)"

section \<open>Incremental merger: \<open>mergeWithExistingData\<close>\<close>

text \<open>
  The persisted validated dataset is \<open>None\<close> when the file cannot be read or parsed: the
  \<open>catch\<close> branch returns the new data as it is. Otherwise a date index is built from the
  existing records, every new record is set under its date, and the values are sorted.
\<close>

definition index_by_date :: "merged_day list \<Rightarrow> (int, merged_day) alist \<Rightarrow> (int, merged_day) alist" where
  "index_by_date items dateIndex = fold (\<lambda>item. DAList.update (date item) item) items dateIndex"

definition mergeWithExistingData :: "merged_day list option \<Rightarrow> merged_day list \<Rightarrow> merged_day list" where
  "mergeWithExistingData existing newData =
     (case existing of
        None \<Rightarrow> newData
      | Some existingData \<Rightarrow>
          sort_key date (vals (index_by_date newData (index_by_date existingData DAList.empty))))"

section \<open>Analyzer: \<open>analyzeData\<close>\<close>

text \<open>
  The nested result object is a flat record, a field for each path. Modelled are the price
  extremes, the per-exchange sums, counts and price lists, the volume sums and extreme, and
  the day counts of the trends, all filled by the single loop over the days and their
  exchanges. The time buckets, the volatility and the market share are computed from the
  same sequence; they need the calendar, logarithms and number formatting and are not
  modelled.
\<close>

record extreme =
  ex_value :: jsnum
  ex_date :: "int option"
  ex_exchange :: string

record average =
  sum_v :: jsnum
  count_v :: nat
  prices :: "jsval list"

record analysis =
  price_highest :: extreme
  price_lowest :: extreme
  price_averages :: "(string, average) alist"
  volume_highest :: extreme
  volume_daily :: "(string, jsnum \<times> nat) alist"
  upDays :: "(string, nat) alist"
  downDays :: "(string, nat) alist"
  flatDays :: "(string, nat) alist"
  maxUpStreak :: "(string, nat) alist"
  maxDownStreak :: "(string, nat) alist"

definition analysis0 :: analysis where
  "analysis0 =
     \<lparr>price_highest = \<lparr>ex_value = Fin 0, ex_date = None, ex_exchange = ''''\<rparr>,
      price_lowest = \<lparr>ex_value = PosInf, ex_date = None, ex_exchange = ''''\<rparr>,
      price_averages = DAList.empty,
      volume_highest = \<lparr>ex_value = Fin 0, ex_date = None, ex_exchange = ''''\<rparr>,
      volume_daily = DAList.empty,
      upDays = DAList.empty, downDays = DAList.empty, flatDays = DAList.empty,
      maxUpStreak = DAList.empty, maxDownStreak = DAList.empty\<rparr>"

text \<open>1. Price statistics.\<close>

definition price_statistics :: "merged_day \<Rightarrow> string \<Rightarrow> kline \<Rightarrow> analysis \<Rightarrow> analysis" where
  "price_statistics dayData exchange dat a =
     (let here = \<lparr>ex_value = toNumber (close dat), ex_date = Some (date dayData),
                  ex_exchange = exchange\<rparr>;
          a1 = (if js_gt (toNumber (close dat)) (ex_value (price_highest a))
                then a\<lparr>price_highest := here\<rparr> else a);
          a2 = (if js_gt (ex_value (price_lowest a1)) (toNumber (close dat))
                then a1\<lparr>price_lowest := here\<rparr> else a1);
          avs = (if DAList.lookup (price_averages a2) exchange = None
                 then DAList.update exchange \<lparr>sum_v = Fin 0, count_v = 0, prices = []\<rparr>
                        (price_averages a2)
                 else price_averages a2)
      in a2\<lparr>price_averages :=
              DAList.map_entry exchange
                (\<lambda>e. \<lparr>sum_v = js_add (sum_v e) (toNumber (close dat)), count_v = count_v e + 1,
                       prices = prices e @ [close dat]\<rparr>) avs\<rparr>)"

text \<open>2. Volume statistics.\<close>

definition volume_statistics :: "merged_day \<Rightarrow> string \<Rightarrow> kline \<Rightarrow> analysis \<Rightarrow> analysis" where
  "volume_statistics dayData exchange dat a =
     (let vd = (if DAList.lookup (volume_daily a) exchange = None
                then DAList.update exchange (Fin 0, 0) (volume_daily a)
                else volume_daily a);
          a1 = a\<lparr>volume_daily :=
                   DAList.map_entry exchange
                     (\<lambda>e. (js_add (fst e) (toNumber (volume dat)), snd e + 1)) vd\<rparr>
      in if js_gt (toNumber (volume dat)) (ex_value (volume_highest a1))
         then a1\<lparr>volume_highest := \<lparr>ex_value = toNumber (volume dat),
                                      ex_date = Some (date dayData), ex_exchange = exchange\<rparr>\<rparr>
         else a1)"

text \<open>
  3. Trend statistics. The counters of an exchange are set to zero whenever its \<open>upDays\<close>
  counter is missing or zero.
\<close>

definition bump :: "string \<Rightarrow> (string, nat) alist \<Rightarrow> (string, nat) alist" where
  "bump exchange m = DAList.map_entry exchange Suc m"

definition trend_statistics ::
  "merged_day list \<Rightarrow> nat \<Rightarrow> string \<Rightarrow> kline \<Rightarrow> analysis \<Rightarrow> analysis" where
  "trend_statistics mergedData index exchange dat a =
     (let a1 = (if DAList.lookup (upDays a) exchange = None
                   \<or> DAList.lookup (upDays a) exchange = Some 0
                then a\<lparr>upDays := DAList.update exchange 0 (upDays a),
                       downDays := DAList.update exchange 0 (downDays a),
                       flatDays := DAList.update exchange 0 (flatDays a),
                       maxUpStreak := DAList.update exchange 0 (maxUpStreak a),
                       maxDownStreak := DAList.update exchange 0 (maxDownStreak a)\<rparr>
                else a)
      in if index > 0
         then (case DAList.lookup (exchanges (mergedData ! (index - 1))) exchange of
                 None \<Rightarrow> a1
               | Some prevDay \<Rightarrow>
                  (let priceChange = js_sub (toNumber (close dat)) (toNumber (close prevDay))
                   in if js_gt priceChange (Fin 0) then a1\<lparr>upDays := bump exchange (upDays a1)\<rparr>
                      else if js_gt (Fin 0) priceChange
                      then a1\<lparr>downDays := bump exchange (downDays a1)\<rparr>
                      else a1\<lparr>flatDays := bump exchange (flatDays a1)\<rparr>))
         else a1)"

definition analyze_exchange ::
  "merged_day list \<Rightarrow> nat \<Rightarrow> merged_day \<Rightarrow> string \<times> kline \<Rightarrow> analysis \<Rightarrow> analysis" where
  "analyze_exchange mergedData index dayData e a =
     trend_statistics mergedData index (fst e) (snd e)
       (volume_statistics dayData (fst e) (snd e)
          (price_statistics dayData (fst e) (snd e) a))"

definition analyze_day :: "merged_day list \<Rightarrow> merged_day \<times> nat \<Rightarrow> analysis \<Rightarrow> analysis" where
  "analyze_day mergedData p a =
     fold (analyze_exchange mergedData (snd p) (fst p)) (DAList.impl_of (exchanges (fst p))) a"

definition analyzeData :: "merged_day list \<Rightarrow> analysis" where
  "analyzeData mergedData =
     fold (analyze_day mergedData) (zip mergedData [0..<length mergedData]) analysis0"

section \<open>The pipeline: \<open>main\<close>\<close>

text \<open>
  The data directory holds the raw file of each exchange and the three result files. The
  environment of a run is the mode, for each exchange of the list its name and the outcome
  of its \<open>fetchKlines\<close> (an exception or the candles), and which files can be written:
  \<open>saveData\<close> throws when the write fails. The start time that \<open>main\<close> derives from the
  mode only parameterises the fetches and is part of their outcomes; the printing after the
  writes raises nothing. A run ends with an exit code and the new state of the directory;
  the code is 1 where \<open>main\<close> calls \<open>process.exit(1)\<close> and 0 where it returns.
\<close>

datatype data_file = RawFile string | ValidatedFile | AnomaliesFile | AnalysisFile

datatype content =
  Klines "kline list" | Days "merged_day list" | Anomalies anomalies | Analysis analysis

type_synonym disk = "data_file \<Rightarrow> content option"

record environment =
  mode :: string
  fetches :: "(string \<times> (error + kline list)) list"
  writable :: "data_file \<Rightarrow> bool"

definition saveData :: "environment \<Rightarrow> content \<Rightarrow> data_file \<Rightarrow> disk \<Rightarrow> error + disk" where
  "saveData env dat filename d =
     (if writable env filename then Inr (d(filename \<mapsto> dat)) else Inl (Error ''write failed''))"

text \<open>
  \<open>fetchExchangeData\<close> with the \<open>catch\<close> that \<open>main\<close> attaches to it: an exception of the
  fetch or of the write of the raw file gives \<open>null\<close>.
\<close>

definition fetchExchangeData ::
  "environment \<Rightarrow> string \<times> (error + kline list) \<Rightarrow> disk \<Rightarrow> fetched option \<times> disk" where
  "fetchExchangeData env exchange d =
     (case snd exchange of
        Inl err \<Rightarrow> (None, d)
      | Inr dat \<Rightarrow>
         (case saveData env (Klines dat) (RawFile (fst exchange)) d of
            Inl err \<Rightarrow> (None, d)
          | Inr d' \<Rightarrow> (Some \<lparr>name = fst exchange, data = Some dat\<rparr>, d')))"

fun fetch_all ::
  "environment \<Rightarrow> (string \<times> (error + kline list)) list \<Rightarrow> disk \<Rightarrow> fetched option list \<times> disk" where
  "fetch_all env [] d = ([], d)"
| "fetch_all env (exchange # rest) d =
     (case fetchExchangeData env exchange d of
        (result, d') \<Rightarrow> (case fetch_all env rest d' of (results, d'') \<Rightarrow> (result # results, d'')))"

definition validResults :: "environment \<Rightarrow> disk \<Rightarrow> fetched option list" where
  "validResults env d = filter (\<lambda>result. result \<noteq> None) (fst (fetch_all env (fetches env) d))"

definition existing_data :: "disk \<Rightarrow> merged_day list option" where
  "existing_data d = (case d ValidatedFile of Some (Days ds) \<Rightarrow> Some ds | _ \<Rightarrow> None)"

definition main :: "environment \<Rightarrow> disk \<Rightarrow> nat \<times> disk" where
  "main env d =
     (let d1 = snd (fetch_all env (fetches env) d) in
      if length (validResults env d) > 0
      then (let mergedData = mergeExchangeData (validResults env d) in
            case validateData mergedData of
              Inl err \<Rightarrow> (1, d1)
            | Inr validation \<Rightarrow>
               (let analysis = analyzeData mergedData;
                    valid' = (if mode env = ''increment''
                              then mergeWithExistingData (existing_data d1) (valid validation)
                              else valid validation)
                in case saveData env (Days valid') ValidatedFile d1 of
                     Inl err \<Rightarrow> (1, d1)
                   | Inr d2 \<Rightarrow>
                      (case saveData env (Anomalies (anomalies validation)) AnomaliesFile d2 of
                         Inl err \<Rightarrow> (1, d2)
                       | Inr d3 \<Rightarrow>
                          (case saveData env (Analysis analysis) AnalysisFile d3 of
                             Inl err \<Rightarrow> (1, d3)
                           | Inr d4 \<Rightarrow> (0, d4)))))
      else (0, d1))"

section \<open>Auxiliary notions for the properties\<close>

subsection \<open>Merger\<close>

text \<open>
  The keys of the date map are the dates of the records stored under them; the candles of
  one exchange, and of all exchanges, in the order in which the merger visits them; the
  last record of a date in a sequence; the candle stored for a date and an exchange.
\<close>

definition dated_keys :: "(int, merged_day) alist \<Rightarrow> bool" where
  "dated_keys m = (\<forall>p \<in> set (DAList.impl_of m). date (snd p) = fst p)"

fun records_of :: "string \<Rightarrow> fetched option list \<Rightarrow> kline list" where
  "records_of nm [] = []"
| "records_of nm (None # rs) = records_of nm rs"
| "records_of nm (Some r # rs) =
     (if name r = nm then (case data r of None \<Rightarrow> [] | Some ks \<Rightarrow> ks) else []) @ records_of nm rs"

definition latest :: "int \<Rightarrow> 'a dated_scheme list \<Rightarrow> 'a dated_scheme option" where
  "latest d ks =
     (if filter (\<lambda>k. date k = d) ks = [] then None else Some (last (filter (\<lambda>k. date k = d) ks)))"

definition slot :: "(int, merged_day) alist \<Rightarrow> int \<Rightarrow> string \<Rightarrow> kline option" where
  "slot m d nm = (case DAList.lookup m d of None \<Rightarrow> None | Some r \<Rightarrow> DAList.lookup (exchanges r) nm)"

fun all_records :: "fetched option list \<Rightarrow> kline list" where
  "all_records [] = []"
| "all_records (None # rs) = all_records rs"
| "all_records (Some r # rs) = (case data r of None \<Rightarrow> [] | Some ks \<Rightarrow> ks) @ all_records rs"

subsection \<open>Validator\<close>

text \<open>
  The four rules, each as the list of entries it contributes for one day: nothing when the
  rule does not fire. The mean of no prices is never asked for; it is \<open>0 / 0\<close>.
\<close>

fun mean :: "jsnum list \<Rightarrow> jsnum" where
  "mean [] = NaN"
| "mean (x # xs) = js_div (foldl js_add x xs) (Fin (of_nat (length (x # xs))))"

definition closes :: "merged_day \<Rightarrow> jsnum list" where
  "closes d = map (\<lambda>k. toNumber (close k)) (vals (exchanges d))"

definition max_diff :: "merged_day \<Rightarrow> jsnum" where
  "max_diff d = js_sub (Math_max (closes d)) (Math_min (closes d))"

definition deviation_percent :: "merged_day \<Rightarrow> jsnum" where
  "deviation_percent d = js_mul (js_div (max_diff d) (mean (closes d))) (Fin 100)"

definition incomplete :: "merged_day \<Rightarrow> bool" where
  "incomplete d =
     list_ex (\<lambda>k. isNaN (open k) \<or> isNaN (high k) \<or> isNaN (low k) \<or> isNaN (close k)
                  \<or> isNaN (volume k))
       (vals (exchanges d))"

definition missing_entry :: "merged_day \<Rightarrow> anomaly" where
  "missing_entry d = MissingData (date d) (keys (exchanges d))"

definition missing_of :: "merged_day \<Rightarrow> anomaly list" where
  "missing_of d = (if incomplete d then [missing_entry d] else [])"

definition deviates :: "merged_day \<Rightarrow> bool" where
  "deviates d = (2 \<le> length (keys (exchanges d)) \<and> js_gt (deviation_percent d) (Fin 1))"

definition deviation_entry :: "merged_day \<Rightarrow> anomaly" where
  "deviation_entry d =
     PriceDeviation (date d) (keys (exchanges d)) (max_diff d) (deviation_percent d)"

definition pricediff_of :: "merged_day \<Rightarrow> anomaly list" where
  "pricediff_of d = (if deviates d then [deviation_entry d] else [])"

definition averageVolume :: "merged_day list \<Rightarrow> string \<Rightarrow> nat \<Rightarrow> jsnum" where
  "averageVolume md e i = (case window_volumes md e i of [] \<Rightarrow> Fin 0 | v # vs \<Rightarrow> mean (v # vs))"

definition spike_of :: "merged_day list \<Rightarrow> nat \<Rightarrow> merged_day \<Rightarrow> string \<Rightarrow> anomaly list" where
  "spike_of md i d e =
     (case DAList.lookup (exchanges d) e of
        None \<Rightarrow> []
      | Some k \<Rightarrow>
          if js_gt (toNumber (volume k)) (js_mul (averageVolume md e i) (Fin 3))
          then [VolumeSpike (date d) e (volume k) (averageVolume md e i)] else [])"

definition gap_percent :: "kline \<Rightarrow> kline \<Rightarrow> jsnum" where
  "gap_percent prev cur =
     js_mul (js_abs (js_div (js_sub (toNumber (open cur)) (toNumber (close prev)))
                            (toNumber (close prev)))) (Fin 100)"

definition gap_of :: "merged_day list \<Rightarrow> nat \<Rightarrow> merged_day \<Rightarrow> string \<Rightarrow> anomaly list" where
  "gap_of md i d e =
     (case (DAList.lookup (exchanges (md ! (i - 1))) e, DAList.lookup (exchanges d) e) of
        (Some prev, Some cur) \<Rightarrow>
          if js_gt (gap_percent prev cur) (Fin 5)
          then [PriceGap (date d) e (gap_percent prev cur) (close prev) (open cur)] else []
      | _ \<Rightarrow> [])"

definition spikes_of :: "merged_day list \<Rightarrow> merged_day \<times> nat \<Rightarrow> anomaly list" where
  "spikes_of md p = concat (map (spike_of md (snd p) (fst p)) (keys (exchanges (fst p))))"

definition gaps_of :: "merged_day list \<Rightarrow> merged_day \<times> nat \<Rightarrow> anomaly list" where
  "gaps_of md p =
     (if snd p > 0 then concat (map (gap_of md (snd p) (fst p)) (keys (exchanges (fst p))))
      else [])"

text \<open>A day is clean when no rule contributes an entry for it.\<close>

definition clean :: "merged_day list \<Rightarrow> merged_day \<times> nat \<Rightarrow> bool" where
  "clean md p =
     (missing_of (fst p) = [] \<and> pricediff_of (fst p) = [] \<and> spikes_of md p = []
      \<and> gaps_of md p = [])"

definition days :: "merged_day list \<Rightarrow> (merged_day \<times> nat) list" where
  "days md = zip md [0..<length md]"

definition all_anomalies :: "validation \<Rightarrow> anomaly list" where
  "all_anomalies vr =
     priceDiff (anomalies vr) @ volumeSpikes (anomalies vr) @ dataMissing (anomalies vr)
     @ priceGaps (anomalies vr)"

text \<open>The number of days of a sequence whose record contains the exchange.\<close>

definition covered :: "string \<Rightarrow> merged_day list \<Rightarrow> nat" where
  "covered e ds = length (filter (\<lambda>d. DAList.lookup (exchanges d) e \<noteq> None) ds)"

text \<open>
  The state in the middle of one day: nothing but the four lists has changed since the
  day began, they have grown by \<open>m\<close>, \<open>p\<close>, \<open>s\<close> and \<open>g\<close>, and the flag tells whether
  all four are empty.
\<close>

definition day_inv ::
  "validation \<Rightarrow> anomaly list \<Rightarrow> anomaly list \<Rightarrow> anomaly list \<Rightarrow> anomaly list \<Rightarrow> day_state \<Rightarrow> bool" where
  "day_inv vr0 m p s g st =
     (valid (fst st) = valid vr0 \<and> stats (fst st) = stats vr0
      \<and> dataMissing (anomalies (fst st)) = dataMissing (anomalies vr0) @ m
      \<and> priceDiff (anomalies (fst st)) = priceDiff (anomalies vr0) @ p
      \<and> volumeSpikes (anomalies (fst st)) = volumeSpikes (anomalies vr0) @ s
      \<and> priceGaps (anomalies (fst st)) = priceGaps (anomalies vr0) @ g
      \<and> snd st = (m = [] \<and> p = [] \<and> s = [] \<and> g = []))"

text \<open>
  What the loop over a list of days adds to the results it starts from.
\<close>

definition extends :: "merged_day list \<Rightarrow> (merged_day \<times> nat) list \<Rightarrow> validation \<Rightarrow> validation \<Rightarrow> bool" where
  "extends md ps vr0 vr =
     (dataMissing (anomalies vr) = dataMissing (anomalies vr0) @ concat (map (\<lambda>p. missing_of (fst p)) ps)
      \<and> priceDiff (anomalies vr) = priceDiff (anomalies vr0) @ concat (map (\<lambda>p. pricediff_of (fst p)) ps)
      \<and> volumeSpikes (anomalies vr) = volumeSpikes (anomalies vr0) @ concat (map (spikes_of md) ps)
      \<and> priceGaps (anomalies vr) = priceGaps (anomalies vr0) @ concat (map (gaps_of md) ps)
      \<and> valid vr = valid vr0 @ map fst (filter (clean md) ps)
      \<and> totalDays (stats vr) = totalDays (stats vr0) + length ps
      \<and> validDays (stats vr) = validDays (stats vr0) + length (filter (clean md) ps)
      \<and> exchangeCoverage (stats vr) =
          fold (\<lambda>d. fold cover (keys (exchanges d))) (map fst (filter (clean md) ps))
            (exchangeCoverage (stats vr0)))"

definition day_anomalies :: "merged_day list \<Rightarrow> merged_day \<times> nat \<Rightarrow> anomaly list" where
  "day_anomalies md p = pricediff_of (fst p) @ spikes_of md p @ missing_of (fst p) @ gaps_of md p"

definition tally :: "(string, nat) alist \<Rightarrow> string \<Rightarrow> nat" where
  "tally cov e = (case DAList.lookup cov e of None \<Rightarrow> 0 | Some n \<Rightarrow> n)"

subsection \<open>Fetch clients\<close>


fun is_Probe :: "action \<Rightarrow> bool" where
  "is_Probe (Probe u) = True"
| "is_Probe a = False"

fun is_Get :: "action \<Rightarrow> bool" where
  "is_Get (Get u) = True"
| "is_Get a = False"

fun is_Switch :: "action \<Rightarrow> bool" where
  "is_Switch (Switch u) = True"
| "is_Switch a = False"

definition probes :: "action list \<Rightarrow> nat" where
  "probes lg = length (filter is_Probe lg)"

definition gets :: "action list \<Rightarrow> nat" where
  "gets lg = length (filter is_Get lg)"

definition switches :: "action list \<Rightarrow> nat" where
  "switches lg = length (filter is_Switch lg)"

definition dns_failures :: "(nat \<Rightarrow> 'd attempt) \<Rightarrow> nat \<Rightarrow> nat \<Rightarrow> nat" where
  "dns_failures env a k = length (filter (\<lambda>i. env i = DnsDown) [a..<a + k])"

subsection \<open>Incremental merger\<close>

text \<open>The date index after the existing and then the new records have been set.\<close>

definition merged_index :: "merged_day list \<Rightarrow> merged_day list \<Rightarrow> (int, merged_day) alist" where
  "merged_index ex inc = index_by_date inc (index_by_date ex DAList.empty)"

section \<open>Concrete inputs\<close>

definition candle :: "int \<Rightarrow> rat \<Rightarrow> rat \<Rightarrow> rat \<Rightarrow> kline" where
  "candle d o' c v =
     \<lparr>date = d, open = Some (Fin o'), high = Some (Fin (max o' c)), low = Some (Fin (min o' c)),
      close = Some (Fin c), volume = Some (Fin v), quoteVolume = Some (Fin (c * v))\<rparr>"

text \<open>
  Exchange \<open>A\<close> reports day 3, day 1, and day 3 again with another volume; exchange \<open>B\<close>
  reports day 1; a third fetch failed.
\<close>

definition two_sources :: "fetched option list" where
  "two_sources =
     [Some \<lparr>name = ''A'', data = Some [candle 3 100 102 5, candle 1 100 100 7, candle 3 100 102 9]\<rparr>,
      None,
      Some \<lparr>name = ''B'', data = Some [candle 1 100 100 4]\<rparr>]"

text \<open>
  Five days of two exchanges. Day 1: both close at 100 with no volume. Day 2: \<open>A\<close> closes
  at 100 and \<open>B\<close> at 102. Day 3: only \<open>A\<close>, and its high is not a number. Day 4: both
  at 100 again. Day 5: \<open>A\<close> alone, at 100.
\<close>

definition five_days :: "merged_day list" where
  "five_days = mergeExchangeData
     [Some \<lparr>name = ''A'', data = Some [candle 1 100 100 0, candle 2 100 100 0,
         (candle 3 100 100 0)\<lparr>high := Some NaN\<rparr>, candle 4 100 100 0, candle 5 100 100 0]\<rparr>,
      Some \<lparr>name = ''B'', data = Some [candle 1 100 100 0, candle 2 100 102 0,
         candle 4 100 100 0]\<rparr>]"

text \<open>
  Three days: exchange \<open>A\<close> trades nothing on days 1 and 2; exchange \<open>B\<close> appears on day 3
  with a volume of 5.
\<close>

definition late_source :: "merged_day list" where
  "late_source = mergeExchangeData
     [Some \<lparr>name = ''A'', data = Some [candle 1 100 100 0, candle 2 100 100 0, candle 3 100 100 0]\<rparr>,
      Some \<lparr>name = ''B'', data = Some [candle 3 100 100 5]\<rparr>]"

text \<open>
  A persisted dataset of days 1 and 2, and a freshly validated tail of days 2 and 3 in
  which day 2 closes at 101.
\<close>

definition persisted_days :: "merged_day list" where
  "persisted_days = mergeExchangeData
     [Some \<lparr>name = ''A'', data = Some [candle 1 100 100 0, candle 2 100 100 0]\<rparr>]"

definition fetched_days :: "merged_day list" where
  "fetched_days = mergeExchangeData
     [Some \<lparr>name = ''A'', data = Some [candle 2 100 101 0, candle 3 101 101 0]\<rparr>]"

text \<open>
  A fetch of the days 1 to 100: the first page holds the days 1, 2 and 3, then every
  request times out. A row is the number of its day.
\<close>

definition first_page :: "(error + int list option) list" where
  "first_page = [Inr (Some [1, 2, 3])]"

definition timeouts :: "nat \<Rightarrow> (error + int list option) list" where
  "timeouts n = replicate n (Inl (Error ''timeout of 30000ms exceeded''))"

definition day_candle :: "int \<Rightarrow> kline" where
  "day_candle t = candle t 100 100 1"


text \<open>
  Three runs in full mode over a data directory that holds a validated dataset of two
  days. In the first, both fetches time out. In the second, both exchanges answer with no
  candles. In the third, one exchange returns one day with a volume of 5, and the
  validated dataset cannot be written.
\<close>

definition old_disk :: disk where
  "old_disk = (\<lambda>f. None)(ValidatedFile \<mapsto> Days persisted_days)"

definition all_failed :: environment where
  "all_failed =
     \<lparr>mode = ''full'',
      fetches = [(''Binance'', Inl (Error ''timeout of 30000ms exceeded'')),
                 (''Huobi'', Inl (Error ''timeout of 30000ms exceeded''))],
      writable = (\<lambda>f. True)\<rparr>"

definition all_empty :: environment where
  "all_empty =
     \<lparr>mode = ''full'',
      fetches = [(''Binance'', Inr []), (''Huobi'', Inr [])],
      writable = (\<lambda>f. True)\<rparr>"

definition one_day :: environment where
  "one_day =
     \<lparr>mode = ''full'',
      fetches = [(''Binance'', Inr [candle 1 100 100 5]),
                 (''Huobi'', Inl (Error ''timeout of 30000ms exceeded''))],
      writable = (\<lambda>f. True)\<rparr>"

definition read_only :: environment where
  "read_only = one_day\<lparr>writable := (\<lambda>f. f \<noteq> ValidatedFile)\<rparr>"

text \<open>
  One day on which three exchanges close at the binary64 values of 7272.28, 7275.11 and
  7202.61: the exact ratio of spread and mean is just above one percent, the computed one
  is 1.
\<close>

definition tight_day :: "merged_day list" where
  "tight_day = mergeExchangeData
     [Some \<lparr>name = ''A'', data = Some [candle 1 7272 (7995956420442849 / 1099511627776) 0]\<rparr>,
      Some \<lparr>name = ''B'', data = Some [candle 1 7272 (7999068038349455 / 1099511627776) 0]\<rparr>,
      Some \<lparr>name = ''C'', data = Some [candle 1 7272 (7919353445335695 / 1099511627776) 0]\<rparr>]"

section \<open>Properties of the merger\<close>

lemma keys_map_entry: "map fst (AList.map_entry k f xs) = map fst xs"
  by (induction xs) auto

lemma distinct_map_insort_key:
  "distinct (map f (insort_key f x xs)) = (f x \<notin> f ` set xs \<and> distinct (map f xs))"
  by (induction xs) (auto simp: set_insort_key)

lemma distinct_map_sort_key: "distinct (map f (sort_key f xs)) = distinct (map f xs)"
  by (induction xs) (auto simp: distinct_map_insort_key sort_key_simps set_sort)

lemma strictly_sorted_sort_key:
  "distinct (map f xs) \<Longrightarrow> sorted_wrt (<) (map f (sort_key f xs))"
  by (simp add: strict_sorted_iff distinct_map_sort_key)

lemma dated_keys_lookup:
  "dated_keys m = (\<forall>d r. DAList.lookup m d = Some r \<longrightarrow> date r = d)"
  unfolding dated_keys_def lookup.rep_eq
  by (auto simp: map_of_eq_Some_iff)

lemma lookup_merge_day:
  "DAList.lookup (merge_day nm k m) d =
     (if d = date k
      then Some ((case DAList.lookup m d of
                    None \<Rightarrow> \<lparr>date = date k, exchanges = DAList.empty\<rparr>
                  | Some r \<Rightarrow> r)\<lparr>exchanges :=
             DAList.update nm k (exchanges (case DAList.lookup m d of
                    None \<Rightarrow> \<lparr>date = date k, exchanges = DAList.empty\<rparr>
                  | Some r \<Rightarrow> r))\<rparr>)
      else DAList.lookup m d)"
  by (auto simp: merge_day_def Let_def lookup.rep_eq map_entry.rep_eq update.rep_eq
      map_of_map_entry update_conv' split: option.splits)

lemma keys_merge_day: "set (keys (merge_day nm k m)) = insert (date k) (set (keys m))"
proof -
  have "set (map fst (AList.update d v xs)) = insert d (set (map fst xs))" for d v
    and xs :: "(int \<times> merged_day) list"
    using dom_update [of d v xs] by simp
  then show ?thesis
    by (auto simp: merge_day_def Let_def keys_def map_entry.rep_eq update.rep_eq keys_map_entry
        lookup.rep_eq map_of_eq_None_iff)
qed

lemma dated_keys_merge_day: "dated_keys m \<Longrightarrow> dated_keys (merge_day nm k m)"
  by (auto simp: dated_keys_lookup lookup_merge_day split: option.splits if_splits)

lemma dated_keys_merge_result: "dated_keys m \<Longrightarrow> dated_keys (merge_result res m)"
proof -
  have "dated_keys m \<Longrightarrow> dated_keys (fold (merge_day nm) ks m)" for nm ks m
    by (induction ks arbitrary: m) (simp_all add: dated_keys_merge_day)
  then show "dated_keys m \<Longrightarrow> dated_keys (merge_result res m)"
    by (simp add: merge_result_def split: option.splits)
qed

lemma dated_keys_fold: "dated_keys m \<Longrightarrow> dated_keys (fold merge_result rs m)"
  by (induction rs arbitrary: m) (simp_all add: dated_keys_merge_result)

lemma dated_keys_empty: "dated_keys DAList.empty"
  by (simp add: dated_keys_def empty.rep_eq)

lemma map_date_vals: "dated_keys m \<Longrightarrow> map date (vals m) = keys m"
  by (simp add: dated_keys_def vals_def keys_def)

lemma distinct_keys: "distinct (keys m)"
  by (simp add: keys_def)

lemma merge_dates_ascending: "sorted_wrt (<) (map date (mergeExchangeData rs))"
  unfolding mergeExchangeData_def
  by (rule strictly_sorted_sort_key)
    (simp add: map_date_vals dated_keys_fold dated_keys_empty distinct_keys)

lemma latest_Nil: "latest d [] = None"
  by (simp add: latest_def)

lemma latest_append:
  "latest d (xs @ ys) = (case latest d ys of None \<Rightarrow> latest d xs | Some k \<Rightarrow> Some k)"
  by (simp add: latest_def)

lemma latest_Cons:
  "latest d (x # ys) = (case latest d ys of None \<Rightarrow> (if date x = d then Some x else None) | Some k \<Rightarrow> Some k)"
  using latest_append [of d "[x]" ys] by (simp add: latest_def)

lemma slot_merge_day:
  "slot (merge_day nm' k m) d nm = (if d = date k \<and> nm = nm' then Some k else slot m d nm)"
  by (auto simp: slot_def lookup_merge_day DAList.lookup_update split: option.splits)

lemma slot_fold_day:
  "slot (fold (merge_day nm') ks m) d nm =
     (if nm = nm' then (case latest d ks of None \<Rightarrow> slot m d nm | Some k \<Rightarrow> Some k)
      else slot m d nm)"
  by (induction ks arbitrary: m)
    (auto simp: latest_Nil latest_Cons slot_merge_day split: option.splits)

lemma merge_result_simps:
  "merge_result None m = m"
  "merge_result (Some r) m =
     (case data r of None \<Rightarrow> m | Some ks \<Rightarrow> fold (merge_day (name r)) ks m)"
  by (simp_all add: merge_result_def)

lemma slot_merge_result:
  "slot (fold merge_result rs m) d nm =
     (case latest d (records_of nm rs) of None \<Rightarrow> slot m d nm | Some k \<Rightarrow> Some k)"
proof (induction rs arbitrary: m)
  case Nil
  show ?case by (simp add: latest_Nil)
next
  case (Cons r rs)
  show ?case
    by (cases r)
      (auto simp: Cons.IH merge_result_simps slot_fold_day latest_append latest_Nil
        split: option.splits)
qed

lemma keys_fold_day:
  "set (keys (fold (merge_day nm) ks m)) = set (keys m) \<union> date ` set ks"
  by (induction ks arbitrary: m) (auto simp: keys_merge_day)

lemma keys_fold_result:
  "set (keys (fold merge_result rs m)) = set (keys m) \<union> date ` set (all_records rs)"
proof (induction rs arbitrary: m)
  case Nil
  show ?case by simp
next
  case (Cons r rs)
  show ?case
    by (cases r)
      (auto simp: Cons.IH merge_result_simps keys_fold_day split: option.splits)
qed

lemma keys_empty: "keys DAList.empty = []"
  by (simp add: keys_def empty.rep_eq)

lemma merge_dates: "set (map date (mergeExchangeData rs)) = date ` set (all_records rs)"
proof -
  have "set (map date (mergeExchangeData rs)) = date ` set (vals (fold merge_result rs DAList.empty))"
    by (simp add: mergeExchangeData_def set_sort)
  also have "\<dots> = set (map date (vals (fold merge_result rs DAList.empty)))"
    by simp
  also have "\<dots> = set (keys (fold merge_result rs DAList.empty))"
    by (simp only: map_date_vals [OF dated_keys_fold [OF dated_keys_empty]])
  finally show ?thesis
    by (simp add: keys_fold_result keys_empty)
qed

lemma lookup_vals:
  assumes "dated_keys m" "r \<in> set (vals m)"
  shows "DAList.lookup m (date r) = Some r"
proof -
  from assms(2) obtain d where "(d, r) \<in> set (DAList.impl_of m)"
    by (auto simp: vals_def)
  moreover from this assms(1) have "date r = d"
    by (auto simp: dated_keys_def)
  ultimately show ?thesis
    by (simp add: lookup.rep_eq)
qed

lemma merge_later_wins:
  assumes "r \<in> set (mergeExchangeData rs)"
  shows "DAList.lookup (exchanges r) nm = latest (date r) (records_of nm rs)"
proof -
  let ?m = "fold merge_result rs DAList.empty"
  from assms have "r \<in> set (vals ?m)"
    by (simp add: mergeExchangeData_def set_sort)
  then have "DAList.lookup ?m (date r) = Some r"
    by (rule lookup_vals [OF dated_keys_fold [OF dated_keys_empty]])
  then have "DAList.lookup (exchanges r) nm = slot ?m (date r) nm"
    by (simp add: slot_def)
  also have "\<dots> = latest (date r) (records_of nm rs)"
  proof -
    have "slot DAList.empty (date r) nm = None"
      by (simp add: slot_def)
    then show ?thesis
      by (simp add: slot_merge_result split: option.splits)
  qed
  finally show ?thesis .
qed

text \<open>
  C5. For every list of per-source results, the dates of the merger's output are strictly
  ascending, hence each appears once; they are exactly the dates of the input candles; and
  the candle stored for a source on a date is the last candle of that date in the source's
  sequence.
\<close>

theorem mergeExchangeData_ascending_unique_later_wins:
  "sorted_wrt (<) (map date (mergeExchangeData rs))
   \<and> distinct (map date (mergeExchangeData rs))
   \<and> set (map date (mergeExchangeData rs)) = date ` set (all_records rs)
   \<and> (\<forall>r \<in> set (mergeExchangeData rs). \<forall>nm.
         DAList.lookup (exchanges r) nm = latest (date r) (records_of nm rs))"
proof -
  have "sorted_wrt (<) (map date (mergeExchangeData rs))"
    by (rule merge_dates_ascending)
  moreover from this have "distinct (map date (mergeExchangeData rs))"
    by (simp add: strict_sorted_iff)
  moreover have "set (map date (mergeExchangeData rs)) = date ` set (all_records rs)"
    by (rule merge_dates)
  moreover have "\<forall>r \<in> set (mergeExchangeData rs). \<forall>nm.
      DAList.lookup (exchanges r) nm = latest (date r) (records_of nm rs)"
    by (simp add: merge_later_wins)
  ultimately show ?thesis by blast
qed

theorem mergeExchangeData_witness:
  "map date (mergeExchangeData two_sources) = [1, 3]
   \<and> map (\<lambda>r. DAList.lookup (exchanges r) ''A'') (mergeExchangeData two_sources)
       = [Some (candle 1 100 100 7), Some (candle 3 100 102 9)]"
proof -
  have dates: "map date (mergeExchangeData two_sources) = [1, 3]"
    by code_simp
  have "map (\<lambda>r. DAList.lookup (exchanges r) ''A'') (mergeExchangeData two_sources)
      = map (\<lambda>r. latest (date r) (records_of ''A'' two_sources)) (mergeExchangeData two_sources)"
    using mergeExchangeData_ascending_unique_later_wins [of two_sources] by simp
  also have "\<dots> = map (\<lambda>d. latest d (records_of ''A'' two_sources))
      (map date (mergeExchangeData two_sources))"
    by (simp add: comp_def)
  also have "\<dots> = [Some (candle 1 100 100 7), Some (candle 3 100 102 9)]"
    unfolding dates by (simp add: two_sources_def latest_def candle_def)
  finally show ?thesis
    using dates by simp
qed

section \<open>Properties of the validator\<close>

lemma push_simps [simp]:
  "valid (push_dataMissing a vr) = valid vr" "stats (push_dataMissing a vr) = stats vr"
  "valid (push_priceDiff a vr) = valid vr" "stats (push_priceDiff a vr) = stats vr"
  "valid (push_volumeSpikes a vr) = valid vr" "stats (push_volumeSpikes a vr) = stats vr"
  "valid (push_priceGaps a vr) = valid vr" "stats (push_priceGaps a vr) = stats vr"
  "anomalies (push_dataMissing a vr) = (anomalies vr)\<lparr>dataMissing := dataMissing (anomalies vr) @ [a]\<rparr>"
  "anomalies (push_priceDiff a vr) = (anomalies vr)\<lparr>priceDiff := priceDiff (anomalies vr) @ [a]\<rparr>"
  "anomalies (push_volumeSpikes a vr) = (anomalies vr)\<lparr>volumeSpikes := volumeSpikes (anomalies vr) @ [a]\<rparr>"
  "anomalies (push_priceGaps a vr) = (anomalies vr)\<lparr>priceGaps := priceGaps (anomalies vr) @ [a]\<rparr>"
  by (simp_all add: push_dataMissing_def push_priceDiff_def push_volumeSpikes_def push_priceGaps_def)

lemma lookup_key: "e \<in> set (keys m) \<Longrightarrow> \<exists>k. DAList.lookup m e = Some k"
  by (auto simp: keys_def lookup.rep_eq)

lemma key_lookup: "DAList.lookup m e = Some k \<Longrightarrow> e \<in> set (keys m)"
  by (auto simp: keys_def lookup.rep_eq dest: map_of_SomeD intro: rev_image_eqI)

lemma vals_lookup: "vals m = map (\<lambda>e. the (DAList.lookup m e)) (keys m)"
  by (auto simp: vals_def keys_def lookup.rep_eq)

lemma members_keys:
  "set es \<subseteq> set (keys m) \<Longrightarrow> members m es = Inr (map (\<lambda>e. the (DAList.lookup m e)) es)"
proof (induction es)
  case Nil
  show ?case by simp
next
  case (Cons e es)
  then obtain k where "DAList.lookup m e = Some k"
    using lookup_key [of e m] by auto
  with Cons show ?case by (simp add: record_of_def)
qed

lemma members_all: "members m (keys m) = Inr (vals m)"
  by (simp add: members_keys vals_lookup)

lemma dataCompleteness_incomplete: "dataCompleteness d = (\<not> incomplete d)"
proof -
  have "list_all P (map (\<lambda>e. the (DAList.lookup m e)) (keys m))
      = list_all (\<lambda>e. case DAList.lookup m e of None \<Rightarrow> False | Some k \<Rightarrow> P k) (keys m)"
    for P and m :: "(string, kline) alist"
    unfolding list_all_iff using lookup_key [of _ m] by fastforce
  from this [symmetric] show ?thesis
    unfolding dataCompleteness_def incomplete_def vals_lookup
    by (simp add: list_ex_iff list_all_iff)
qed

lemma day_inv_start: "day_inv vr [] [] [] [] (vr, True)"
  by (simp add: day_inv_def)

lemma day_inv_push:
  assumes "day_inv vr0 m p s g st"
  shows "day_inv vr0 (m @ [a]) p s g (push_dataMissing a (fst st), False)"
    and "day_inv vr0 m (p @ [a]) s g (push_priceDiff a (fst st), False)"
    and "day_inv vr0 m p (s @ [a]) g (push_volumeSpikes a (fst st), False)"
    and "day_inv vr0 m p s (g @ [a]) (push_priceGaps a (fst st), False)"
  using assms by (simp_all add: day_inv_def)

lemma check_completeness_inv:
  assumes "day_inv vr0 m p s g st"
  shows "day_inv vr0 (m @ missing_of d) p s g (check_completeness d st)"
  using assms day_inv_push(1) [OF assms, of "missing_entry d"]
  by (simp add: check_completeness_def missing_of_def missing_entry_def
      dataCompleteness_incomplete)

lemma check_price_eq:
  "check_price d st =
     Inr (if deviates d then (push_priceDiff (deviation_entry d) (fst st), False) else st)"
proof (cases "length (keys (exchanges d)) > 1")
  case False
  then show ?thesis
    by (simp add: check_price_def deviates_def)
next
  case True
  then obtain x xs where cl: "closes d = x # xs"
    by (cases "closes d") (auto simp: closes_def vals_def keys_def)
  have len: "length (closes d) = length (keys (exchanges d))"
    by (simp add: closes_def vals_def keys_def)
  from True have two: "2 \<le> length (keys (exchanges d))"
    by simp
  have ks: "map (\<lambda>k. toNumber (close k)) (vals (exchanges d)) = x # xs"
    using cl by (simp add: closes_def)
  have lxs: "length (keys (exchanges d)) = Suc (length xs)"
    using len cl by simp
  show ?thesis
    using True two
    by (simp add: check_price_def Let_def members_all ks deviates_def deviation_entry_def
        deviation_percent_def max_diff_def closes_def lxs
        del: js_div.simps js_mul.simps js_gt.simps)
qed

lemma check_price_inv:
  assumes "day_inv vr0 m p s g st"
  shows "\<exists>st'. check_price d st = Inr st' \<and> day_inv vr0 m (p @ pricediff_of d) s g st'"
  using assms day_inv_push(2) [OF assms, of "deviation_entry d"]
  by (simp add: check_price_eq pricediff_of_def)

lemma calculateAverageVolume_eq:
  "calculateAverageVolume md e i = Inr (averageVolume md e i)"
  by (cases "window_volumes md e i")
    (simp_all add: calculateAverageVolume_def averageVolume_def Let_def)

lemma check_volume_inv:
  assumes "day_inv vr0 m p s g st" and "e \<in> set (keys (exchanges d))"
  shows "\<exists>st'. check_volume md i d e st = Inr st'
           \<and> day_inv vr0 m p (s @ spike_of md i d e) g st'"
proof -
  from assms(2) obtain k where k: "DAList.lookup (exchanges d) e = Some k"
    using lookup_key [of e "exchanges d"] by auto
  show ?thesis
  proof (cases "js_gt (toNumber (volume k)) (js_mul (averageVolume md e i) (Fin 3))")
    case True
    then have "check_volume md i d e st = Inr (push_volumeSpikes
        (VolumeSpike (date d) e (volume k) (averageVolume md e i)) (fst st), False)"
      by (simp add: check_volume_def record_of_def calculateAverageVolume_eq k)
    moreover from True have "spike_of md i d e =
        [VolumeSpike (date d) e (volume k) (averageVolume md e i)]"
      by (simp add: spike_of_def k)
    ultimately show ?thesis
      using day_inv_push(3) [OF assms(1)] by simp
  next
    case False
    then have "check_volume md i d e st = Inr st"
      by (simp add: check_volume_def record_of_def calculateAverageVolume_eq k)
    moreover from False have "spike_of md i d e = []"
      by (simp add: spike_of_def k)
    ultimately show ?thesis
      using assms(1) by simp
  qed
qed

lemma forEach_check_volume_inv:
  assumes "day_inv vr0 m p s g st" and "set es \<subseteq> set (keys (exchanges d))"
  shows "\<exists>st'. forEach (check_volume md i d) es st = Inr st'
           \<and> day_inv vr0 m p (s @ concat (map (spike_of md i d) es)) g st'"
  using assms
proof (induction es arbitrary: s st)
  case Nil
  then show ?case by simp
next
  case (Cons e es)
  from Cons.prems obtain st1 where
    st1: "check_volume md i d e st = Inr st1" "day_inv vr0 m p (s @ spike_of md i d e) g st1"
    using check_volume_inv [of vr0 m p s g st e d md i] by auto
  from Cons.IH [OF st1(2)] Cons.prems(2) st1(1) show ?case
    by simp
qed

lemma check_gap_inv:
  assumes "day_inv vr0 m p s g st"
  shows "day_inv vr0 m p s (g @ gap_of md i d e) (check_gap md i d e st)"
proof (cases "DAList.lookup (exchanges (md ! (i - 1))) e")
  case None
  with assms show ?thesis
    by (simp add: check_gap_def gap_of_def)
next
  case prev: (Some prevData)
  show ?thesis
  proof (cases "DAList.lookup (exchanges d) e")
    case None
    with assms prev show ?thesis
      by (simp add: check_gap_def gap_of_def)
  next
    case (Some currData)
    with assms prev
      day_inv_push(4) [OF assms, of "PriceGap (date d) e (gap_percent prevData currData)
        (close prevData) (open currData)"]
    show ?thesis
      by (simp add: check_gap_def gap_of_def gap_percent_def Let_def
          del: js_gt.simps js_mul.simps js_div.simps js_abs.simps)
  qed
qed

lemma fold_check_gap_inv:
  assumes "day_inv vr0 m p s g st"
  shows "day_inv vr0 m p s (g @ concat (map (gap_of md i d) es)) (fold (check_gap md i d) es st)"
  using assms
proof (induction es arbitrary: g st)
  case Nil
  then show ?case by simp
next
  case (Cons e es)
  from Cons.IH [OF check_gap_inv [OF Cons.prems]] show ?case
    by simp
qed

lemma update_statistics_extends:
  assumes "day_inv vr0 (missing_of (fst p)) (pricediff_of (fst p)) (spikes_of md p) (gaps_of md p) st"
  shows "extends md [p] vr0 (update_statistics (fst p) st)"
  using assms
  by (simp add: extends_def update_statistics_def day_inv_def clean_def Let_def)

lemma extends_Nil: "extends md [] vr vr"
  by (simp add: extends_def)

lemma extends_append:
  assumes "extends md ps vr0 vr1" and "extends md qs vr1 vr2"
  shows "extends md (ps @ qs) vr0 vr2"
  using assms by (simp add: extends_def)

lemma validate_day_extends:
  "\<exists>vr. validate_day md p vr0 = Inr vr \<and> extends md [p] vr0 vr"
proof -
  let ?d = "fst p" and ?i = "snd p"
  let ?es = "keys (exchanges (fst p))"
  let ?st1 = "check_completeness ?d (vr0, True)"
  have 1: "day_inv vr0 (missing_of ?d) [] [] [] ?st1"
    using check_completeness_inv [OF day_inv_start, of vr0 ?d] by simp
  from check_price_inv [OF 1, of ?d] obtain st2 where
    st2: "check_price ?d ?st1 = Inr st2"
    and 2: "day_inv vr0 (missing_of ?d) (pricediff_of ?d) [] [] st2"
    by auto
  from forEach_check_volume_inv [OF 2, of ?es ?d md ?i] obtain st3 where
    st3: "forEach (check_volume md ?i ?d) ?es st2 = Inr st3"
    and 3: "day_inv vr0 (missing_of ?d) (pricediff_of ?d) (spikes_of md p) [] st3"
    by (auto simp: spikes_of_def)
  let ?st4 = "if ?i > 0 then fold (check_gap md ?i ?d) ?es st3 else st3"
  have 4: "day_inv vr0 (missing_of ?d) (pricediff_of ?d) (spikes_of md p) (gaps_of md p) ?st4"
    using 3 fold_check_gap_inv [OF 3, of md ?i ?d ?es] by (simp add: gaps_of_def)
  have "validate_day md p vr0 = Inr (update_statistics ?d ?st4)"
    by (simp add: validate_day_def Let_def st2 st3)
  with update_statistics_extends [OF 4] show ?thesis
    by simp
qed

lemma forEach_validate_day:
  "\<exists>vr. forEach (validate_day md) ps vr0 = Inr vr \<and> extends md ps vr0 vr"
proof (induction ps arbitrary: vr0)
  case Nil
  show ?case by (simp add: extends_Nil)
next
  case (Cons p ps)
  from validate_day_extends [of md p vr0] obtain vr1 where
    1: "validate_day md p vr0 = Inr vr1" "extends md [p] vr0 vr1"
    by auto
  from Cons.IH [of vr1] obtain vr where
    2: "forEach (validate_day md) ps vr1 = Inr vr" "extends md ps vr1 vr"
    by auto
  from extends_append [OF 1(2) 2(2)] 1(1) 2(1) show ?case
    by simp
qed

lemma validateData_extends:
  "\<exists>vr. validateData md = Inr vr \<and> extends md (days md) validationResults0 vr"
  unfolding validateData_def days_def by (rule forEach_validate_day)

lemma clean_day_anomalies: "clean md p = (day_anomalies md p = [])"
  by (auto simp: clean_def day_anomalies_def)

lemma day_anomalies_date:
  assumes "a \<in> set (day_anomalies md p)"
  shows "anomaly_date a = date (fst p)"
proof -
  have "anomaly_date a = date (fst p)" if "a \<in> set (spike_of md i (fst p) e)" for i e
    using that by (auto simp: spike_of_def split: option.splits if_splits)
  moreover have "anomaly_date a = date (fst p)" if "a \<in> set (gap_of md i (fst p) e)" for i e
    using that by (auto simp: gap_of_def split: option.splits if_splits)
  ultimately show ?thesis
    using assms
    by (auto simp: day_anomalies_def pricediff_of_def deviation_entry_def missing_of_def
        missing_entry_def spikes_of_def gaps_of_def split: if_splits)
qed

lemma extends_all_anomalies:
  assumes "extends md ps validationResults0 vr"
  shows "set (all_anomalies vr) = (\<Union>p \<in> set ps. set (day_anomalies md p))"
  using assms
  by (auto simp: extends_def all_anomalies_def validationResults0_def day_anomalies_def)

lemma map_fst_days: "map fst (days md) = md"
  by (simp add: days_def)

lemma valid_by_dates:
  assumes "distinct (map date md)"
  shows "map fst (filter (clean md) (days md))
       = filter (\<lambda>d. date d \<notin> anomaly_date ` (\<Union>p \<in> set (days md). set (day_anomalies md p))) md"
proof -
  let ?AD = "anomaly_date ` (\<Union>p \<in> set (days md). set (day_anomalies md p))"
  from assms have "distinct (map (date \<circ> fst) (days md))"
    by (simp add: map_fst_days flip: map_map)
  then have inj: "inj_on (date \<circ> fst) (set (days md))"
    by (simp add: distinct_map)
  have "clean md p = (date (fst p) \<notin> ?AD)" if p: "p \<in> set (days md)" for p
  proof
    assume c: "clean md p"
    show "date (fst p) \<notin> ?AD"
    proof
      assume "date (fst p) \<in> ?AD"
      then obtain q a where q: "q \<in> set (days md)" "a \<in> set (day_anomalies md q)"
        "date (fst p) = anomaly_date a"
        by auto
      then have "date (fst p) = date (fst q)"
        by (simp add: day_anomalies_date)
      then have "(date \<circ> fst) p = (date \<circ> fst) q"
        by simp
      from inj_onD [OF inj this p q(1)] have "p = q" .
      with c q(2) show False
        by (simp add: clean_day_anomalies)
    qed
  next
    assume n: "date (fst p) \<notin> ?AD"
    show "clean md p"
    proof (rule ccontr)
      assume "\<not> clean md p"
      then obtain a where a: "a \<in> set (day_anomalies md p)"
        by (cases "day_anomalies md p") (auto simp: clean_day_anomalies)
      then have "anomaly_date a = date (fst p)"
        by (rule day_anomalies_date)
      with a p n show False
        by (metis (no_types, lifting) UN_I image_eqI)
    qed
  qed
  then have "filter (clean md) (days md) = filter (\<lambda>p. date (fst p) \<notin> ?AD) (days md)"
    by (intro filter_cong) auto
  then have "map fst (filter (clean md) (days md))
      = filter (\<lambda>d. date d \<notin> ?AD) (map fst (days md))"
    by (simp add: filter_map comp_def)
  then show ?thesis
    by (simp add: map_fst_days)
qed

lemma lookup_cover:
  "DAList.lookup (cover e' cov) e = (if e = e' then Some (Suc (tally cov e)) else DAList.lookup cov e)"
  by (auto simp: cover_def tally_def lookup.rep_eq map_entry.rep_eq update.rep_eq
      map_of_map_entry update_conv' split: option.splits)

lemma tally_cover: "tally (cover e' cov) e = (if e = e' then Suc (tally cov e) else tally cov e)"
  by (simp add: tally_def lookup_cover)

lemma lookup_fold_cover:
  assumes "distinct es"
  shows "DAList.lookup (fold cover es cov) e
       = (if e \<in> set es then Some (Suc (tally cov e)) else DAList.lookup cov e)"
  using assms
proof (induction es arbitrary: cov)
  case Nil
  show ?case by simp
next
  case (Cons x es)
  then show ?case
    by (auto simp: lookup_cover tally_cover)
qed

lemma in_keys_lookup: "(e \<in> set (keys m)) = (DAList.lookup m e \<noteq> None)"
  using lookup_key [of e m] key_lookup [of m e] by auto

lemma lookup_coverage:
  "DAList.lookup (fold (\<lambda>d. fold cover (keys (exchanges d))) ds cov) e
     = (if covered e ds = 0 then DAList.lookup cov e else Some (tally cov e + covered e ds))"
proof (induction ds arbitrary: cov)
  case Nil
  show ?case by (simp add: covered_def)
next
  case (Cons d ds)
  let ?cov = "fold cover (keys (exchanges d)) cov"
  have l: "DAList.lookup ?cov e
      = (if DAList.lookup (exchanges d) e \<noteq> None then Some (Suc (tally cov e)) else DAList.lookup cov e)"
    by (simp add: lookup_fold_cover distinct_keys in_keys_lookup)
  then have t: "tally ?cov e
      = (if DAList.lookup (exchanges d) e \<noteq> None then Suc (tally cov e) else tally cov e)"
    by (simp add: tally_def)
  show ?case
    by (simp add: Cons.IH l t covered_def)
qed

lemma validateData_fields:
  "\<exists>vr. validateData md = Inr vr
     \<and> dataMissing (anomalies vr) = concat (map (\<lambda>p. missing_of (fst p)) (days md))
     \<and> priceDiff (anomalies vr) = concat (map (\<lambda>p. pricediff_of (fst p)) (days md))
     \<and> volumeSpikes (anomalies vr) = concat (map (spikes_of md) (days md))
     \<and> priceGaps (anomalies vr) = concat (map (gaps_of md) (days md))
     \<and> valid vr = map fst (filter (clean md) (days md))
     \<and> totalDays (stats vr) = length md
     \<and> validDays (stats vr) = length (valid vr)
     \<and> exchangeCoverage (stats vr)
         = fold (\<lambda>d. fold cover (keys (exchanges d))) (valid vr) DAList.empty
     \<and> set (all_anomalies vr) = (\<Union>p \<in> set (days md). set (day_anomalies md p))"
proof -
  from validateData_extends [of md] obtain vr where
    vr: "validateData md = Inr vr" "extends md (days md) validationResults0 vr"
    by auto
  have "length (days md) = length md"
    by (simp add: days_def)
  with vr(2) extends_all_anomalies [OF vr(2)] vr(1) show ?thesis
    by (simp add: extends_def validationResults0_def)
qed

lemma concat_map_if:
  "concat (map (\<lambda>x. if P x then [f x] else []) xs) = map f (filter P xs)"
  by (induction xs) simp_all

lemma concat_days:
  "concat (map (\<lambda>p. h (fst p)) (days md)) = concat (map h md)"
proof -
  have "map (\<lambda>p. h (fst p)) (days md) = map h (map fst (days md))"
    by simp
  then show ?thesis
    by (simp only: map_fst_days)
qed

text \<open>
  C2. Validation of a merged sequence returns a result whose valid days are exactly the
  days for which none of the four rules contributes an entry; when the dates are distinct,
  these are the days whose date is the date of no anomaly entry of the result. The counter
  \<open>validDays\<close> is the length of the valid sequence, and the coverage of an exchange is the
  number of valid days that contain it (an exchange on no valid day has no counter).
\<close>

theorem validateData_valid_and_coverage:
  "\<exists>vr. validateData md = Inr vr
     \<and> valid vr = map fst (filter (clean md) (days md))
     \<and> (distinct (map date md) \<longrightarrow>
          valid vr = filter (\<lambda>d. date d \<notin> anomaly_date ` set (all_anomalies vr)) md)
     \<and> validDays (stats vr) = length (valid vr)
     \<and> (\<forall>e. DAList.lookup (exchangeCoverage (stats vr)) e
            = (if covered e (valid vr) = 0 then None else Some (covered e (valid vr))))"
proof -
  from validateData_fields [of md] obtain vr where
    vr: "validateData md = Inr vr"
      "valid vr = map fst (filter (clean md) (days md))"
      "validDays (stats vr) = length (valid vr)"
      "exchangeCoverage (stats vr)
         = fold (\<lambda>d. fold cover (keys (exchanges d))) (valid vr) DAList.empty"
      "set (all_anomalies vr) = (\<Union>p \<in> set (days md). set (day_anomalies md p))"
    by blast
  have "valid vr = filter (\<lambda>d. date d \<notin> anomaly_date ` set (all_anomalies vr)) md"
    if "distinct (map date md)"
    using valid_by_dates [OF that] vr(2,5) by simp
  moreover have "DAList.lookup (exchangeCoverage (stats vr)) e
      = (if covered e (valid vr) = 0 then None else Some (covered e (valid vr)))" for e
    by (simp add: vr(4) lookup_coverage tally_def)
  ultimately show ?thesis
    using vr(1,2,3) by blast
qed

theorem validateData_valid_and_coverage_witness:
  "distinct (map date five_days)
   \<and> (\<exists>vr. validateData five_days = Inr vr
         \<and> map date (valid vr) = [1, 4, 5]
         \<and> validDays (stats vr) = 3
         \<and> DAList.lookup (exchangeCoverage (stats vr)) ''A'' = Some 3
         \<and> DAList.lookup (exchangeCoverage (stats vr)) ''B'' = Some 2
         \<and> DAList.lookup (exchangeCoverage (stats vr)) ''C'' = None)"
proof -
  have d: "distinct (map date five_days)"
    by code_simp
  from validateData_valid_and_coverage [of five_days] obtain vr where
    vr: "validateData five_days = Inr vr"
      "valid vr = map fst (filter (clean five_days) (days five_days))"
      "validDays (stats vr) = length (valid vr)"
      "\<And>e. DAList.lookup (exchangeCoverage (stats vr)) e
            = (if covered e (valid vr) = 0 then None else Some (covered e (valid vr)))"
    by blast
  have 1: "map date (map fst (filter (clean five_days) (days five_days))) = [1, 4, 5]"
    by code_simp
  have 2: "covered ''A'' (map fst (filter (clean five_days) (days five_days))) = 3"
    by code_simp
  have 3: "covered ''B'' (map fst (filter (clean five_days) (days five_days))) = 2"
    by code_simp
  have 4: "covered ''C'' (map fst (filter (clean five_days) (days five_days))) = 0"
    by code_simp
  have 5: "length (map fst (filter (clean five_days) (days five_days))) = 3"
    by code_simp
  have "map date (valid vr) = [1, 4, 5]"
    using 1 by (simp only: vr(2))
  moreover have "validDays (stats vr) = 3"
    using 5 by (simp only: vr(2) vr(3))
  moreover have "DAList.lookup (exchangeCoverage (stats vr)) ''A'' = Some 3"
    using 2 vr(4) [of "''A''"] by (simp only: vr(2)) simp
  moreover have "DAList.lookup (exchangeCoverage (stats vr)) ''B'' = Some 2"
    using 3 vr(4) [of "''B''"] by (simp only: vr(2)) simp
  moreover have "DAList.lookup (exchangeCoverage (stats vr)) ''C'' = None"
    using 4 vr(4) [of "''C''"] by (simp only: vr(2)) simp
  ultimately show ?thesis
    using d vr(1) by simp
qed

lemma Math_max_same: "set xs \<subseteq> {c} \<Longrightarrow> xs \<noteq> [] \<Longrightarrow> Math_max xs = c"
proof -
  have "foldl js_max2 a xs = c" if "set xs \<subseteq> {c}" "xs \<noteq> []" "a = NegInf \<or> a = c" for a
    using that
  proof (induction xs arbitrary: a)
    case Nil
    then show ?case by simp
  next
    case (Cons x xs)
    then have x: "x = c" by simp
    have "js_max2 a c = c"
      using Cons.prems(3) by (cases c) (auto simp: js_max2_def)
    with Cons x show ?case
      by (cases "xs = []") auto
  qed
  then show "set xs \<subseteq> {c} \<Longrightarrow> xs \<noteq> [] \<Longrightarrow> Math_max xs = c"
    by (simp add: Math_max_def)
qed

lemma Math_min_same: "set xs \<subseteq> {c} \<Longrightarrow> xs \<noteq> [] \<Longrightarrow> Math_min xs = c"
proof -
  have "foldl js_min2 a xs = c" if "set xs \<subseteq> {c}" "xs \<noteq> []" "a = PosInf \<or> a = c" for a
    using that
  proof (induction xs arbitrary: a)
    case Nil
    then show ?case by simp
  next
    case (Cons x xs)
    then have x: "x = c" by simp
    have "js_min2 a c = c"
      using Cons.prems(3) by (cases c) (auto simp: js_min2_def)
    with Cons x show ?case
      by (cases "xs = []") auto
  qed
  then show "set xs \<subseteq> {c} \<Longrightarrow> xs \<noteq> [] \<Longrightarrow> Math_min xs = c"
    by (simp add: Math_min_def)
qed

lemma binary64_0: "binary64 0 = Fin 0"
  by (simp add: binary64_def)

lemma js_sub_same: "js_sub c c = Fin 0 \<or> js_sub c c = NaN"
  by (cases c) (simp_all add: js_sub_def binary64_0)

lemma zero_percent: "x = Fin 0 \<or> x = NaN \<Longrightarrow> \<not> js_gt (js_mul (js_div x y) (Fin 100)) (Fin 1)"
  by (cases y) (auto simp: signed_inf_def binary64_0 split: if_splits)

lemma identical_closes_no_deviation:
  assumes "set (closes d) \<subseteq> {c}"
  shows "\<not> js_gt (deviation_percent d) (Fin 1)"
proof (cases "closes d = []")
  case True
  then show ?thesis
    by (simp add: deviation_percent_def max_diff_def Math_max_def Math_min_def js_sub_def)
next
  case False
  with assms have "max_diff d = js_sub c c"
    by (simp add: max_diff_def Math_max_same Math_min_same)
  with js_sub_same [of c] show ?thesis
    unfolding deviation_percent_def by (intro zero_percent) auto
qed

lemma pricediff_concat:
  "concat (map pricediff_of md)
     = map deviation_entry
         (filter (\<lambda>d. 2 \<le> length (keys (exchanges d)) \<and> js_gt (deviation_percent d) (Fin 1)) md)"
  by (induction md) (simp_all add: pricediff_of_def deviates_def)

lemma missing_concat: "concat (map missing_of md) = map missing_entry (filter incomplete md)"
  by (induction md) (simp_all add: missing_of_def)

lemma filter_same_key:
  assumes "distinct (map f xs)" and "x \<in> set xs"
  shows "filter (\<lambda>y. f y = f x) xs = [x]"
  using assms
proof (induction xs)
  case Nil
  then show ?case by simp
next
  case (Cons y ys)
  show ?case
  proof (cases "y = x")
    case True
    with Cons.prems(1) have "filter (\<lambda>y. f y = f x) ys = []"
      by (auto simp: filter_empty_conv image_iff)
    with True show ?thesis by simp
  next
    case False
    with Cons.prems have "x \<in> set ys" "f y \<noteq> f x"
      by auto
    with Cons show ?thesis by simp
  qed
qed

text \<open>
  C6. The price-deviation entries of the result are, in order, the entries of the days that
  have at least two exchanges and for which \<open>(max(close) - min(close)) / mean(close) * 100\<close>,
  computed in binary64 as the code computes it (the closes summed from left to right, every
  operation rounded), is greater than 1; a day on which all closes are the same value has
  no such entry.
\<close>

theorem priceDiff_iff_deviation_exceeds_one:
  "\<exists>vr. validateData md = Inr vr
     \<and> priceDiff (anomalies vr)
         = map deviation_entry
             (filter (\<lambda>d. 2 \<le> length (keys (exchanges d))
                           \<and> js_gt (deviation_percent d) (Fin 1)) md)
     \<and> (\<forall>d \<in> set md. \<forall>c. set (closes d) \<subseteq> {c} \<longrightarrow>
           \<not> js_gt (deviation_percent d) (Fin 1)
           \<and> deviation_entry d \<notin> set (priceDiff (anomalies vr)))"
proof -
  from validateData_fields [of md] obtain vr where
    vr: "validateData md = Inr vr"
      "priceDiff (anomalies vr) = concat (map (\<lambda>p. pricediff_of (fst p)) (days md))"
    by blast
  have pd: "priceDiff (anomalies vr)
      = map deviation_entry
          (filter (\<lambda>d. 2 \<le> length (keys (exchanges d))
                        \<and> js_gt (deviation_percent d) (Fin 1)) md)"
    by (simp only: vr(2) concat_days pricediff_concat)
  have "\<not> js_gt (deviation_percent d) (Fin 1)
      \<and> deviation_entry d \<notin> set (priceDiff (anomalies vr))"
    if "set (closes d) \<subseteq> {c}" for d c
  proof
    show n: "\<not> js_gt (deviation_percent d) (Fin 1)"
      using that by (rule identical_closes_no_deviation)
    show "deviation_entry d \<notin> set (priceDiff (anomalies vr))"
    proof
      assume "deviation_entry d \<in> set (priceDiff (anomalies vr))"
      then obtain d' where "deviation_entry d' = deviation_entry d"
        "js_gt (deviation_percent d') (Fin 1)"
        unfolding pd by auto
      with n show False
        by (simp add: deviation_entry_def)
    qed
  qed
  with vr(1) pd show ?thesis
    by blast
qed

theorem priceDiff_witness:
  "five_days ! 0 \<in> set five_days
   \<and> set (closes (five_days ! 0)) \<subseteq> {Fin 100}
   \<and> (\<exists>vr. validateData five_days = Inr vr
         \<and> priceDiff (anomalies vr)
             = [PriceDeviation 2 [''A'', ''B''] (Fin 2) (Fin (1114752383012499 / 562949953421312))]
         \<and> deviation_entry (five_days ! 0) \<notin> set (priceDiff (anomalies vr)))
   \<and> map deviation_percent tight_day = [Fin 1]
   \<and> (\<exists>vr. validateData tight_day = Inr vr \<and> priceDiff (anomalies vr) = [])"
proof -
  have m: "five_days ! 0 \<in> set five_days"
    by code_simp
  have c: "set (closes (five_days ! 0)) \<subseteq> {Fin 100}"
    by code_simp
  have e: "map deviation_entry
      (filter (\<lambda>d. 2 \<le> length (keys (exchanges d)) \<and> js_gt (deviation_percent d) (Fin 1))
         five_days)
      = [PriceDeviation 2 [''A'', ''B''] (Fin 2) (Fin (1114752383012499 / 562949953421312))]"
    by code_simp
  have p: "map deviation_percent tight_day = [Fin 1]"
    by code_simp
  have t: "map deviation_entry
      (filter (\<lambda>d. 2 \<le> length (keys (exchanges d)) \<and> js_gt (deviation_percent d) (Fin 1))
         tight_day) = []"
    by code_simp
  from priceDiff_iff_deviation_exceeds_one [of five_days] m c e
  have 1: "\<exists>vr. validateData five_days = Inr vr
         \<and> priceDiff (anomalies vr)
             = [PriceDeviation 2 [''A'', ''B''] (Fin 2) (Fin (1114752383012499 / 562949953421312))]
         \<and> deviation_entry (five_days ! 0) \<notin> set (priceDiff (anomalies vr))"
    by metis
  from priceDiff_iff_deviation_exceeds_one [of tight_day] t
  have 2: "\<exists>vr. validateData tight_day = Inr vr \<and> priceDiff (anomalies vr) = []"
    by metis
  from m c 1 p 2 show ?thesis
    by (intro conjI)
qed

text \<open>
  C9. Validation of any merged sequence returns a result and raises nothing. Its
  missing-data entries are, in order, one entry for each day on which some exchange has an
  open, high, low, close or volume that is absent or not a number; so, when the dates are
  distinct, exactly one entry carries the date of such a day, and none the date of any
  other day.
\<close>

theorem dataMissing_one_entry_per_incomplete_day:
  "\<exists>vr. validateData md = Inr vr
     \<and> dataMissing (anomalies vr) = map missing_entry (filter incomplete md)
     \<and> (distinct (map date md) \<longrightarrow>
          (\<forall>d \<in> set md.
             length (filter (\<lambda>a. anomaly_date a = date d) (dataMissing (anomalies vr)))
               = (if incomplete d then 1 else 0)))"
proof -
  from validateData_fields [of md] obtain vr where
    vr: "validateData md = Inr vr"
      "dataMissing (anomalies vr) = concat (map (\<lambda>p. missing_of (fst p)) (days md))"
    by blast
  have dm: "dataMissing (anomalies vr) = map missing_entry (filter incomplete md)"
    by (simp only: vr(2) concat_days missing_concat)
  have "length (filter (\<lambda>a. anomaly_date a = date d) (dataMissing (anomalies vr)))
      = (if incomplete d then 1 else 0)"
    if dist: "distinct (map date md)" and d: "d \<in> set md" for d
  proof -
    have "filter (\<lambda>a. anomaly_date a = date d) (map missing_entry (filter incomplete md))
        = map missing_entry (filter incomplete (filter (\<lambda>x. date x = date d) md))"
      by (simp add: filter_map comp_def missing_entry_def conj_commute)
    also have "filter (\<lambda>x. date x = date d) md = [d]"
      using dist d by (rule filter_same_key)
    finally show ?thesis
      by (simp add: dm)
  qed
  with vr(1) dm show ?thesis
    by blast
qed

theorem dataMissing_witness:
  "distinct (map date five_days)
   \<and> five_days ! 2 \<in> set five_days
   \<and> incomplete (five_days ! 2)
   \<and> date (five_days ! 2) = 3
   \<and> (\<exists>vr. validateData five_days = Inr vr
         \<and> dataMissing (anomalies vr) = [MissingData 3 [''A'']]
         \<and> length (filter (\<lambda>a. anomaly_date a = 3) (dataMissing (anomalies vr))) = 1)"
proof -
  have 1: "distinct (map date five_days)"
    by code_simp
  have 2: "five_days ! 2 \<in> set five_days"
    by code_simp
  have 3: "incomplete (five_days ! 2)"
    by code_simp
  have 4: "date (five_days ! 2) = 3"
    by code_simp
  have 5: "map missing_entry (filter incomplete five_days) = [MissingData 3 [''A'']]"
    by code_simp
  from dataMissing_one_entry_per_incomplete_day [of five_days] obtain vr where
    vr: "validateData five_days = Inr vr"
      "dataMissing (anomalies vr) = map missing_entry (filter incomplete five_days)"
      "distinct (map date five_days) \<longrightarrow>
          (\<forall>d \<in> set five_days.
             length (filter (\<lambda>a. anomaly_date a = date d) (dataMissing (anomalies vr)))
               = (if incomplete d then 1 else 0))"
    by blast
  from vr(3) 1 2 3 have "length (filter (\<lambda>a. anomaly_date a = date (five_days ! 2))
      (dataMissing (anomalies vr))) = 1"
    by simp
  with 1 2 3 4 5 vr(1,2) show ?thesis
    by simp
qed

lemma map_filter_None: "(\<forall>x \<in> set xs. f x = None) \<Longrightarrow> List.map_filter f xs = []"
  by (induction xs) (simp_all add: List.map_filter_simps)

lemma nth_days: "i < length md \<Longrightarrow> (md ! i, i) \<in> set (days md)"
  unfolding days_def in_set_zip by (rule exI [of _ i]) simp

text \<open>
  C10. When no entry of the window of up to 30 entries before a day contains a record of an
  exchange, the average volume computed for the exchange on that day is 0; if the
  exchange's volume on that day is greater than 0, the result has a volume-spike entry for
  that day and exchange, and the day is not a valid day.
\<close>

theorem first_appearance_volume_spike:
  assumes "i < length md"
    and "DAList.lookup (exchanges (md ! i)) e = Some k"
    and "\<forall>d \<in> set (slice (i - windowSize) i md). DAList.lookup (exchanges d) e = None"
    and "js_gt (toNumber (volume k)) (Fin 0)"
  shows "calculateAverageVolume md e i = Inr (Fin 0)
     \<and> (\<exists>vr. validateData md = Inr vr
           \<and> VolumeSpike (date (md ! i)) e (volume k) (Fin 0) \<in> set (volumeSpikes (anomalies vr))
           \<and> valid vr = map fst (filter (clean md) (days md))
           \<and> \<not> clean md (md ! i, i)
           \<and> (distinct (map date md) \<longrightarrow> date (md ! i) \<notin> date ` set (valid vr)))"
proof -
  have w: "window_volumes md e i = []"
    using assms(3)
    by (auto simp: window_volumes_def intro!: map_filter_None)
  then have avg: "averageVolume md e i = Fin 0"
    by (simp add: averageVolume_def)
  then have cav: "calculateAverageVolume md e i = Inr (Fin 0)"
    by (simp add: calculateAverageVolume_eq)
  let ?a = "VolumeSpike (date (md ! i)) e (volume k) (Fin 0)"
  have "?a \<in> set (spike_of md i (md ! i) e)"
    using assms(2,4) by (simp add: spike_of_def avg binary64_0)
  moreover have "e \<in> set (keys (exchanges (md ! i)))"
    using assms(2) by (rule key_lookup)
  ultimately have sp: "?a \<in> set (spikes_of md (md ! i, i))"
    unfolding spikes_of_def by (simp del: set_concat) (auto simp: set_concat)
  then have nc: "\<not> clean md (md ! i, i)"
    by (auto simp: clean_def)
  have p: "(md ! i, i) \<in> set (days md)"
    using assms(1) by (rule nth_days)
  from validateData_fields [of md] obtain vr where
    vr: "validateData md = Inr vr"
      "volumeSpikes (anomalies vr) = concat (map (spikes_of md) (days md))"
      "valid vr = map fst (filter (clean md) (days md))"
      "set (all_anomalies vr) = (\<Union>p \<in> set (days md). set (day_anomalies md p))"
    by blast
  have in_vs: "?a \<in> set (volumeSpikes (anomalies vr))"
    using sp p by (auto simp: vr(2))
  have "date (md ! i) \<notin> date ` set (valid vr)" if dist: "distinct (map date md)"
  proof -
    have "?a \<in> set (all_anomalies vr)"
      using in_vs by (simp add: all_anomalies_def)
    then have "date (md ! i) \<in> anomaly_date ` set (all_anomalies vr)"
      by force
    moreover have "valid vr = filter (\<lambda>d. date d \<notin> anomaly_date ` set (all_anomalies vr)) md"
      using valid_by_dates [OF dist] vr(3,4) by simp
    ultimately show ?thesis
      by auto
  qed
  with cav vr(1) in_vs vr(3) nc show ?thesis
    by blast
qed

theorem first_appearance_volume_spike_witness:
  "2 < length late_source
   \<and> DAList.lookup (exchanges (late_source ! 2)) ''B'' = Some (candle 3 100 100 5)
   \<and> list_all (\<lambda>d. DAList.lookup (exchanges d) ''B'' = None) (slice (2 - windowSize) 2 late_source)
   \<and> js_gt (toNumber (volume (candle 3 100 100 5))) (Fin 0)
   \<and> distinct (map date late_source)
   \<and> calculateAverageVolume late_source ''B'' 2 = Inr (Fin 0)
   \<and> (\<exists>vr. validateData late_source = Inr vr
         \<and> VolumeSpike 3 ''B'' (Some (Fin 5)) (Fin 0) \<in> set (volumeSpikes (anomalies vr))
         \<and> 3 \<notin> date ` set (valid vr))"
proof -
  have 1: "2 < length late_source"
    by code_simp
  have 2: "DAList.lookup (exchanges (late_source ! 2)) ''B'' = Some (candle 3 100 100 5)"
    by code_simp
  have 3: "list_all (\<lambda>d. DAList.lookup (exchanges d) ''B'' = None)
      (slice (2 - windowSize) 2 late_source)"
    by code_simp
  have 4: "js_gt (toNumber (volume (candle 3 100 100 5))) (Fin 0)"
    by (simp add: candle_def)
  have 5: "distinct (map date late_source)"
    by code_simp
  have 6: "date (late_source ! 2) = 3"
    by code_simp
  have 7: "volume (candle 3 100 100 5) = Some (Fin 5)"
    by (simp add: candle_def)
  from 3 have w3: "\<forall>d \<in> set (slice (2 - windowSize) 2 late_source).
      DAList.lookup (exchanges d) ''B'' = None"
    by (simp add: list_all_iff)
  from first_appearance_volume_spike [OF 1 2 w3 4] 5 show ?thesis
    using 1 2 3 4 unfolding 6 7 by auto
qed

section \<open>Properties of the incremental merger\<close>

lemma lookup_index_by_date:
  "DAList.lookup (index_by_date xs m) d
     = (case latest d xs of Some x \<Rightarrow> Some x | None \<Rightarrow> DAList.lookup m d)"
proof (induction xs arbitrary: m)
  case Nil
  show ?case by (simp add: index_by_date_def latest_Nil)
next
  case (Cons x xs)
  from Cons.IH [of "DAList.update (date x) x m"] show ?case
    by (auto simp: index_by_date_def latest_Cons DAList.lookup_update split: option.splits)
qed

lemma dated_keys_update: "dated_keys m \<Longrightarrow> dated_keys (DAList.update (date x) x m)"
  by (auto simp: dated_keys_lookup DAList.lookup_update split: if_splits)

lemma dated_keys_index_by_date: "dated_keys m \<Longrightarrow> dated_keys (index_by_date xs m)"
  unfolding index_by_date_def
  by (induction xs arbitrary: m) (simp_all add: dated_keys_update)

lemma in_vals_lookup: "(r \<in> set (vals m)) = (\<exists>d. DAList.lookup m d = Some r)"
  by (force simp: vals_def lookup.rep_eq)

lemma latest_SomeD: "latest d xs = Some r \<Longrightarrow> r \<in> set xs \<and> date r = d"
proof -
  assume "latest d xs = Some r"
  then have ne: "filter (\<lambda>k. date k = d) xs \<noteq> []" and r: "r = last (filter (\<lambda>k. date k = d) xs)"
    by (auto simp: latest_def split: if_splits)
  from last_in_set [OF ne] r have "r \<in> set (filter (\<lambda>k. date k = d) xs)"
    by simp
  then show ?thesis by simp
qed

lemma latest_distinct:
  assumes "distinct (map date xs)" and "r \<in> set xs"
  shows "latest (date r) xs = Some r"
  using filter_same_key [OF assms] by (simp add: latest_def)

lemma latest_None_iff: "(latest d xs = None) = (d \<notin> date ` set xs)"
  by (auto simp: latest_def filter_empty_conv)

lemma sorted_by_date_unique:
  fixes xs ys :: "merged_day list"
  assumes "sorted_wrt (<) (map date xs)" and "sorted_wrt (<) (map date ys)"
    and "set xs = set ys"
  shows "xs = ys"
proof -
  from assms(1,2) have s: "sorted (map date xs)" "distinct (map date xs)"
    "sorted (map date ys)" "distinct (map date ys)"
    by (simp_all add: strict_sorted_iff)
  from assms(3) have "set (map date xs) = set (map date ys)"
    by simp
  with s have m: "map date xs = map date ys"
    by (intro sorted_distinct_set_unique)
  from s(2) have "inj_on date (set xs)"
    by (simp add: distinct_map)
  with assms(3) have "inj_on date (set xs \<union> set ys)"
    by simp
  with m show ?thesis
    by (rule map_inj_on)
qed


lemma mergeWithExistingData_Some:
  "mergeWithExistingData (Some ex) inc = sort_key date (vals (merged_index ex inc))"
  by (simp add: mergeWithExistingData_def merged_index_def)

lemma dated_keys_merged_index: "dated_keys (merged_index ex inc)"
  unfolding merged_index_def
  by (intro dated_keys_index_by_date dated_keys_empty)

lemma lookup_merged_index:
  "DAList.lookup (merged_index ex inc) d
     = (case latest d inc of Some x \<Rightarrow> Some x | None \<Rightarrow> latest d ex)"
  by (simp add: merged_index_def lookup_index_by_date split: option.splits)

lemma reconcile_sorted: "sorted_wrt (<) (map date (mergeWithExistingData (Some ex) inc))"
  unfolding mergeWithExistingData_Some
  by (rule strictly_sorted_sort_key)
    (simp add: map_date_vals dated_keys_merged_index distinct_keys)

lemma reconcile_member:
  "(r \<in> set (mergeWithExistingData (Some ex) inc))
     = (DAList.lookup (merged_index ex inc) (date r) = Some r)"
proof
  assume "r \<in> set (mergeWithExistingData (Some ex) inc)"
  then have "r \<in> set (vals (merged_index ex inc))"
    by (simp add: mergeWithExistingData_Some set_sort)
  then show "DAList.lookup (merged_index ex inc) (date r) = Some r"
    by (rule lookup_vals [OF dated_keys_merged_index])
next
  assume "DAList.lookup (merged_index ex inc) (date r) = Some r"
  then have "r \<in> set (vals (merged_index ex inc))"
    by (auto simp: in_vals_lookup)
  then show "r \<in> set (mergeWithExistingData (Some ex) inc)"
    by (simp add: mergeWithExistingData_Some set_sort)
qed

lemma reconcile_replaces:
  assumes "r \<in> set (mergeWithExistingData (Some ex) inc)"
  shows "Some r = (case latest (date r) inc of Some x \<Rightarrow> Some x | None \<Rightarrow> latest (date r) ex)"
  using assms by (simp add: reconcile_member lookup_merged_index)

lemma reconcile_dates:
  "set (map date (mergeWithExistingData (Some ex) inc)) = date ` (set ex \<union> set inc)"
proof -
  have "d \<in> date ` set (mergeWithExistingData (Some ex) inc)
      \<longleftrightarrow> d \<in> date ` (set ex \<union> set inc)" for d
  proof
    assume "d \<in> date ` set (mergeWithExistingData (Some ex) inc)"
    then obtain r where r: "r \<in> set (mergeWithExistingData (Some ex) inc)" "date r = d"
      by auto
    from reconcile_replaces [OF r(1)] r(2) show "d \<in> date ` (set ex \<union> set inc)"
      by (auto split: option.splits dest!: latest_SomeD sym [of "Some r"])
  next
    assume "d \<in> date ` (set ex \<union> set inc)"
    then have "latest d inc \<noteq> None \<or> latest d ex \<noteq> None"
      by (auto simp: latest_None_iff)
    then have "DAList.lookup (merged_index ex inc) d \<noteq> None"
      by (auto simp: lookup_merged_index split: option.splits)
    then obtain r where l: "DAList.lookup (merged_index ex inc) d = Some r"
      by auto
    then have "date r = d"
      using dated_keys_merged_index [of ex inc] by (simp add: dated_keys_lookup)
    with l show "d \<in> date ` set (mergeWithExistingData (Some ex) inc)"
      by (auto simp: reconcile_member)
  qed
  then show ?thesis by auto
qed

lemma latest_reconcile:
  "latest d (mergeWithExistingData (Some ex) inc) = DAList.lookup (merged_index ex inc) d"
proof (cases "DAList.lookup (merged_index ex inc) d")
  case None
  have "d \<notin> date ` set (mergeWithExistingData (Some ex) inc)"
  proof
    assume "d \<in> date ` set (mergeWithExistingData (Some ex) inc)"
    then obtain r where "r \<in> set (mergeWithExistingData (Some ex) inc)" "date r = d"
      by auto
    with None show False
      by (simp add: reconcile_member)
  qed
  with None show ?thesis
    by (simp add: latest_None_iff)
next
  case (Some r)
  then have d: "date r = d"
    using dated_keys_merged_index [of ex inc] by (simp add: dated_keys_lookup)
  with Some have "r \<in> set (mergeWithExistingData (Some ex) inc)"
    by (simp add: reconcile_member)
  moreover have "distinct (map date (mergeWithExistingData (Some ex) inc))"
    using reconcile_sorted [of ex inc] by (simp add: strict_sorted_iff)
  ultimately have "latest (date r) (mergeWithExistingData (Some ex) inc) = Some r"
    by (intro latest_distinct)
  with Some d show ?thesis by simp
qed

lemma reconcile_idempotent:
  "mergeWithExistingData (Some (mergeWithExistingData (Some ex) inc)) inc
     = mergeWithExistingData (Some ex) inc"
proof (rule sorted_by_date_unique)
  let ?R = "mergeWithExistingData (Some ex) inc"
  show "sorted_wrt (<) (map date (mergeWithExistingData (Some ?R) inc))"
    by (rule reconcile_sorted)
  show "sorted_wrt (<) (map date ?R)"
    by (rule reconcile_sorted)
  have "DAList.lookup (merged_index ?R inc) d = DAList.lookup (merged_index ex inc) d" for d
  proof -
    have "DAList.lookup (merged_index ?R inc) d
        = (case latest d inc of Some x \<Rightarrow> Some x | None \<Rightarrow> DAList.lookup (merged_index ex inc) d)"
      by (simp only: lookup_merged_index [of ?R] latest_reconcile)
    also have "\<dots> = DAList.lookup (merged_index ex inc) d"
      by (simp add: lookup_merged_index split: option.splits)
    finally show ?thesis .
  qed
  then show "set (mergeWithExistingData (Some ?R) inc) = set ?R"
    by (auto simp: reconcile_member)
qed

lemma reconcile_fresh:
  assumes "sorted_wrt (<) (map date inc)"
  shows "mergeWithExistingData (Some inc) inc = inc"
proof (rule sorted_by_date_unique)
  show "sorted_wrt (<) (map date (mergeWithExistingData (Some inc) inc))"
    by (rule reconcile_sorted)
  show "sorted_wrt (<) (map date inc)"
    by (rule assms)
  from assms have dist: "distinct (map date inc)"
    by (simp add: strict_sorted_iff)
  have "DAList.lookup (merged_index inc inc) d = latest d inc" for d
    by (simp add: lookup_merged_index split: option.splits)
  then show "set (mergeWithExistingData (Some inc) inc) = set inc"
    using latest_distinct [OF dist] by (auto simp: reconcile_member dest: latest_SomeD)
qed

lemma sorted_wrt_filter_map:
  "sorted_wrt (<) (map f xs) \<Longrightarrow> sorted_wrt (<) (map f (filter P xs))"
  by (induction xs) auto

lemma valid_ascending:
  assumes "validateData (mergeExchangeData rs) = Inr vr"
  shows "sorted_wrt (<) (map date (valid vr))"
proof -
  let ?md = "mergeExchangeData rs"
  have s: "sorted_wrt (<) (map date ?md)"
    by (rule merge_dates_ascending)
  then have "distinct (map date ?md)"
    by (simp add: strict_sorted_iff)
  from valid_by_dates [OF this] validateData_fields [of ?md] assms
  have "\<exists>P. valid vr = filter P ?md"
    by auto
  with s show ?thesis
    by (auto simp: sorted_wrt_filter_map)
qed

text \<open>
  C7. When no persisted dataset can be read, the incremental merger returns the new data
  unchanged. Otherwise its result is in strictly ascending date order, has exactly the
  dates of the existing and the new records, holds for each date the last new record of
  that date or, when there is none, the last existing one (a whole record, never a mix of
  fields), and merging the same new data into the result gives the result again. For new
  data in strictly ascending date order, as the contract requires and as the valid
  sequence of the pipeline always is, the result is ascending and merging is idempotent
  also when no dataset was persisted before.
\<close>

theorem mergeWithExistingData_reconciles:
  "mergeWithExistingData None incoming = incoming
   \<and> sorted_wrt (<) (map date (mergeWithExistingData (Some existing) incoming))
   \<and> set (map date (mergeWithExistingData (Some existing) incoming))
       = date ` (set existing \<union> set incoming)
   \<and> (\<forall>r \<in> set (mergeWithExistingData (Some existing) incoming).
         Some r = (case latest (date r) incoming of
                     Some x \<Rightarrow> Some x
                   | None \<Rightarrow> latest (date r) existing))
   \<and> mergeWithExistingData (Some (mergeWithExistingData (Some existing) incoming)) incoming
       = mergeWithExistingData (Some existing) incoming
   \<and> (sorted_wrt (<) (map date incoming) \<longrightarrow>
        (\<forall>persisted.
           sorted_wrt (<) (map date (mergeWithExistingData persisted incoming))
           \<and> mergeWithExistingData (Some (mergeWithExistingData persisted incoming)) incoming
               = mergeWithExistingData persisted incoming))"
proof -
  have none: "mergeWithExistingData None incoming = incoming"
    by (simp add: mergeWithExistingData_def)
  have "sorted_wrt (<) (map date (mergeWithExistingData persisted incoming))
      \<and> mergeWithExistingData (Some (mergeWithExistingData persisted incoming)) incoming
          = mergeWithExistingData persisted incoming"
    if "sorted_wrt (<) (map date incoming)" for persisted
  proof (cases persisted)
    case None
    with that show ?thesis
      by (simp add: none reconcile_fresh)
  next
    case (Some ex)
    then show ?thesis
      by (simp add: reconcile_sorted reconcile_idempotent)
  qed
  with none reconcile_sorted [of existing incoming] reconcile_dates [of existing incoming]
    reconcile_replaces [of _ existing incoming] reconcile_idempotent [of existing incoming]
  show ?thesis
    by blast
qed

theorem mergeWithExistingData_witness:
  "sorted_wrt (<) (map date fetched_days)
   \<and> mergeWithExistingData (Some persisted_days) fetched_days
       = [persisted_days ! 0, fetched_days ! 0, fetched_days ! 1]
   \<and> mergeWithExistingData (Some [persisted_days ! 0, fetched_days ! 0, fetched_days ! 1]) fetched_days
       = [persisted_days ! 0, fetched_days ! 0, fetched_days ! 1]
   \<and> mergeWithExistingData (Some (mergeWithExistingData None fetched_days)) fetched_days
       = fetched_days
   \<and> map Some (mergeWithExistingData (Some persisted_days) fetched_days)
       = map (\<lambda>r. case latest (date r) fetched_days of
                      Some x \<Rightarrow> Some x
                    | None \<Rightarrow> latest (date r) persisted_days)
           (mergeWithExistingData (Some persisted_days) fetched_days)"
proof -
  note t = mergeWithExistingData_reconciles [of fetched_days persisted_days]
  have s: "sorted_wrt (<) (map date fetched_days)"
    by code_simp
  have v: "mergeWithExistingData (Some persisted_days) fetched_days
      = [persisted_days ! 0, fetched_days ! 0, fetched_days ! 1]"
    by code_simp
  from t have "mergeWithExistingData (Some (mergeWithExistingData (Some persisted_days) fetched_days))
      fetched_days = mergeWithExistingData (Some persisted_days) fetched_days"
    by blast
  then have i: "mergeWithExistingData (Some [persisted_days ! 0, fetched_days ! 0, fetched_days ! 1])
      fetched_days = [persisted_days ! 0, fetched_days ! 0, fetched_days ! 1]"
    by (simp only: v)
  from t s have n: "mergeWithExistingData (Some (mergeWithExistingData None fetched_days)) fetched_days
      = fetched_days"
    by metis
  from t have "\<forall>r \<in> set (mergeWithExistingData (Some persisted_days) fetched_days).
      Some r = (case latest (date r) fetched_days of
                  Some x \<Rightarrow> Some x
                | None \<Rightarrow> latest (date r) persisted_days)"
    by blast
  then have m: "map Some (mergeWithExistingData (Some persisted_days) fetched_days)
       = map (\<lambda>r. case latest (date r) fetched_days of
                      Some x \<Rightarrow> Some x
                    | None \<Rightarrow> latest (date r) persisted_days)
           (mergeWithExistingData (Some persisted_days) fetched_days)"
    by (simp only: map_eq_conv)
  from s v i n m show ?thesis
    by (intro conjI)
qed

section \<open>Properties of the fetch clients\<close>

lemma fetchAllData_loop_append:
  "fetchAllData_loop ct e pre st = Awaiting st'
   \<Longrightarrow> fetchAllData_loop ct e (pre @ rs) st = fetchAllData_loop ct e rs st'"
proof (induction ct e pre st rule: fetchAllData_loop.induct)
  case (1 ct e p f)
  then show ?case
    by (cases rs) (auto split: if_splits)
next
  case (2 ct e reply rest p f)
  then show ?case
    by (auto split: if_splits sum.splits option.splits)
qed

lemma fetchAllData_loop_awaiting:
  "fetchAllData_loop ct e pre st = Awaiting (p', f') \<Longrightarrow> failureCount (fst st) < MAX_FAILURES
   \<Longrightarrow> failureCount p' < MAX_FAILURES \<and> currentStartTime p' < e"
proof (induction ct e pre st rule: fetchAllData_loop.induct)
  case (1 ct e p f)
  then show ?case
    by (auto split: if_splits)
next
  case (2 ct e reply rest p f)
  then show ?case
    by (auto simp: MAX_FAILURES_def split: if_splits sum.splits option.splits)
qed

lemma fetchAllData_loop_failures:
  assumes "currentStartTime p < e" and "failureCount p < MAX_FAILURES"
    and "length fails = MAX_FAILURES - failureCount p" and "list_all isl fails"
  shows "fetchAllData_loop ct e (fails @ rest) (p, f) = Returned (allData p)"
  using assms
proof (induction fails arbitrary: p f)
  case Nil
  then show ?case by simp
next
  case (Cons r fails)
  from Cons.prems(4) obtain err where r: "r = Inl err"
    by (cases r) auto
  show ?case
  proof (cases "failureCount p + 1 \<ge> MAX_FAILURES")
    case True
    with Cons.prems(1) r show ?thesis by simp
  next
    case False
    with Cons.prems have "fetchAllData_loop ct e (fails @ rest)
        (p\<lparr>failureCount := failureCount p + 1\<rparr>, switchEndpoint (emit (Sleep 5000) f))
        = Returned (allData (p\<lparr>failureCount := failureCount p + 1\<rparr>))"
      by (intro Cons.IH) auto
    with False Cons.prems(1) r show ?thesis by simp
  qed
qed

lemma OKX_loop_append:
  "OKX_fetchKlines_loop ot fmt e pre st = Awaiting st'
   \<Longrightarrow> OKX_fetchKlines_loop ot fmt e (pre @ rs) st = OKX_fetchKlines_loop ot fmt e rs st'"
proof (induction ot fmt e pre st rule: OKX_fetchKlines_loop.induct)
  case (1 ot fmt e p x)
  then show ?case
    by (cases rs) (auto split: if_splits)
next
  case (2 ot fmt e reply rest p x)
  then show ?case
    by (auto split: if_splits sum.splits option.splits)
qed

lemma OKX_loop_awaiting:
  "OKX_fetchKlines_loop ot fmt e pre st = Awaiting (p', x') \<Longrightarrow> failureCount (fst st) < MAX_FAILURES
   \<Longrightarrow> failureCount p' < MAX_FAILURES \<and> currentStartTime p' < e"
proof (induction ot fmt e pre st rule: OKX_fetchKlines_loop.induct)
  case (1 ot fmt e p x)
  then show ?case
    by (auto split: if_splits)
next
  case (2 ot fmt e reply rest p x)
  then show ?case
    by (auto simp: MAX_FAILURES_def split: if_splits sum.splits option.splits)
qed

lemma OKX_loop_failures:
  assumes "currentStartTime p < e" and "failureCount p < MAX_FAILURES"
    and "length fails = MAX_FAILURES - failureCount p" and "list_all isl fails"
  shows "OKX_fetchKlines_loop ot fmt e (fails @ rest) (p, x)
       = Raised (Error ''Too many consecutive failures'')"
  using assms
proof (induction fails arbitrary: p x)
  case Nil
  then show ?case by simp
next
  case (Cons r fails)
  from Cons.prems(4) obtain err where r: "r = Inl err"
    by (cases r) auto
  show ?case
  proof (cases "failureCount p + 1 \<ge> MAX_FAILURES")
    case True
    with Cons.prems(1) r show ?thesis by simp
  next
    case False
    with Cons.prems have "OKX_fetchKlines_loop ot fmt e (fails @ rest)
        (p\<lparr>failureCount := failureCount p + 1\<rparr>, OKX_switchEndpoint (switchProxy x))
        = Raised (Error ''Too many consecutive failures'')"
      by (intro Cons.IH) auto
    with False Cons.prems(1) r show ?thesis by simp
  qed
qed

text \<open>
  C1, as stated, fails for \<open>OKXExchange.fetchKlines\<close>: after a first page of three rows,
  ten consecutive failures end the call with an exception, and the three rows are not
  returned.
\<close>

theorem OKX_fetchKlines_raises:
  "OKX_fetchKlines id day_candle 1 100 (first_page @ timeouts 10) OKXExchange
     = Raised (Error ''Too many consecutive failures'')
   \<and> OKX_fetchKlines id day_candle 1 100 (first_page @ timeouts 10) OKXExchange
     \<noteq> Returned (map day_candle [1, 2, 3])"
  by (simp add: OKX_fetchKlines_def first_page_def timeouts_def MAX_FAILURES_def
      numeral_eq_Suc)

text \<open>
  C1, amended. Take a run that is in the loop after the outcomes \<open>pre\<close>, with progress \<open>p\<close>,
  and let the next outcomes be exceptions, as many as bring the failure counter to 10.
  Then \<open>PriceFetcher.fetchAllData\<close> returns the rows accumulated so far, whatever outcomes
  would follow, and \<open>OKXExchange.fetchKlines\<close> raises \<open>Too many consecutive failures\<close>.
\<close>

theorem ten_failures_end_the_fetch:
  assumes "length fails = MAX_FAILURES - failureCount p" and "list_all isl fails"
  shows "(fetchAllData closeTime startTime endTime pre f = Awaiting (p, f')
            \<longrightarrow> fetchAllData closeTime startTime endTime (pre @ fails @ rest) f
                  = Returned (allData p))
       \<and> (OKX_fetchKlines openTime format startTime endTime pre x = Awaiting (p, x')
            \<longrightarrow> OKX_fetchKlines openTime format startTime endTime (pre @ fails @ rest) x
                  = Raised (Error ''Too many consecutive failures''))"
proof (intro conjI impI)
  assume a: "fetchAllData closeTime startTime endTime pre f = Awaiting (p, f')"
  then have "failureCount p < MAX_FAILURES \<and> currentStartTime p < endTime"
    unfolding fetchAllData_def
    by (rule fetchAllData_loop_awaiting) (simp add: MAX_FAILURES_def)
  then have "fetchAllData_loop closeTime endTime (fails @ rest) (p, f') = Returned (allData p)"
    using assms by (intro fetchAllData_loop_failures) auto
  with a show "fetchAllData closeTime startTime endTime (pre @ fails @ rest) f
      = Returned (allData p)"
    by (simp add: fetchAllData_def fetchAllData_loop_append)
next
  assume a: "OKX_fetchKlines openTime format startTime endTime pre x = Awaiting (p, x')"
  then have "failureCount p < MAX_FAILURES \<and> currentStartTime p < endTime"
    unfolding OKX_fetchKlines_def
    by (rule OKX_loop_awaiting) (simp add: MAX_FAILURES_def)
  then have "OKX_fetchKlines_loop openTime format endTime (fails @ rest) (p, x')
      = Raised (Error ''Too many consecutive failures'')"
    using assms by (intro OKX_loop_failures) auto
  with a show "OKX_fetchKlines openTime format startTime endTime (pre @ fails @ rest) x
      = Raised (Error ''Too many consecutive failures'')"
    by (simp add: OKX_fetchKlines_def OKX_loop_append)
qed

theorem ten_failures_end_the_fetch_witness:
  "fetchAllData id 1 100 first_page PriceFetcher
     = Awaiting (\<lparr>allData = [1, 2, 3], currentStartTime = 4, failureCount = 0\<rparr>,
                 emit (Sleep 300) PriceFetcher)
   \<and> OKX_fetchKlines id day_candle 1 100 first_page OKXExchange
     = Awaiting (\<lparr>allData = [1, 2, 3], currentStartTime = 4, failureCount = 0\<rparr>,
                 switchProxy OKXExchange)
   \<and> length (timeouts 10) = MAX_FAILURES
   \<and> list_all isl (timeouts 10)
   \<and> fetchAllData id 1 100 (first_page @ timeouts 10 @ first_page) PriceFetcher
     = Returned [1, 2, 3]
   \<and> OKX_fetchKlines id day_candle 1 100 (first_page @ timeouts 10 @ first_page) OKXExchange
     = Raised (Error ''Too many consecutive failures'')"
proof -
  let ?p = "\<lparr>allData = [1, 2, 3], currentStartTime = 4, failureCount = 0\<rparr> :: int progress"
  have 1: "fetchAllData id 1 100 first_page PriceFetcher
      = Awaiting (?p, emit (Sleep 300) PriceFetcher)"
    by (simp add: fetchAllData_def first_page_def)
  have 2: "OKX_fetchKlines id day_candle 1 100 first_page OKXExchange
      = Awaiting (?p, switchProxy OKXExchange)"
    by (simp add: OKX_fetchKlines_def first_page_def)
  have 3: "length (timeouts 10) = MAX_FAILURES - failureCount ?p"
    by (simp add: timeouts_def MAX_FAILURES_def)
  have 4: "list_all isl (timeouts 10)"
    by (simp add: timeouts_def list_all_iff)
  from ten_failures_end_the_fetch [OF 3 4, of id 1 100 first_page PriceFetcher
      "emit (Sleep 300) PriceFetcher" first_page id day_candle OKXExchange "switchProxy OKXExchange"]
    1 2 3 4 show ?thesis
    by simp
qed

lemma trace_emit [simp]: "trace (emit a f) = trace f @ [a]" "baseURL (emit a f) = baseURL f"
  "currentEndpointIndex (emit a f) = currentEndpointIndex f"
  by (simp_all add: emit_def)


lemma dns_failures_0 [simp]: "dns_failures env a 0 = 0"
  by (simp add: dns_failures_def)


lemma counts_simps [simp]:
  "probes [] = 0" "gets [] = 0" "switches [] = 0"
  "probes (a # lg) = (if is_Probe a then 1 else 0) + probes lg"
  "gets (a # lg) = (if is_Get a then 1 else 0) + gets lg"
  "switches (a # lg) = (if is_Switch a then 1 else 0) + switches lg"
  by (simp_all add: probes_def gets_def switches_def)








section \<open>Properties of the pipeline\<close>

lemma fetch_all_failed:
  "\<forall>e \<in> set xs. isl (snd e) \<Longrightarrow> fetch_all env xs d = (replicate (length xs) None, d)"
  by (induction xs arbitrary: d) (auto simp: fetchExchangeData_def split: sum.splits)

lemma fetch_all_Some:
  "Some r \<in> set (fst (fetch_all env xs d)) \<Longrightarrow> \<exists>e \<in> set xs. \<not> isl (snd e)"
proof (induction xs arbitrary: d)
  case Nil
  then show ?case by simp
next
  case (Cons x xs)
  show ?case
  proof (cases "isl (snd x)")
    case False
    then show ?thesis by simp
  next
    case True
    then have "fetchExchangeData env x d = (None, d)"
      by (auto simp: fetchExchangeData_def split: sum.splits)
    with Cons.prems have "Some r \<in> set (fst (fetch_all env xs d))"
      by (auto split: prod.splits)
    from Cons.IH [OF this] show ?thesis by simp
  qed
qed

lemma validResults_failed:
  "\<forall>e \<in> set (fetches env). isl (snd e) \<Longrightarrow> validResults env d = []"
  by (simp add: validResults_def fetch_all_failed)

lemma validResults_nonempty:
  assumes "validResults env d \<noteq> []"
  shows "\<exists>e \<in> set (fetches env). \<not> isl (snd e)"
proof -
  from assms obtain x where "x \<in> set (validResults env d)"
    by (cases "validResults env d") auto
  then obtain r where "Some r \<in> set (fst (fetch_all env (fetches env) d))"
    by (auto simp: validResults_def)
  then show ?thesis
    by (rule fetch_all_Some)
qed

lemma main_all_failed:
  assumes "\<forall>e \<in> set (fetches env). isl (snd e)"
  shows "main env d = (0, d)"
  using assms by (simp add: main_def validResults_failed fetch_all_failed)

lemma main_exit:
  assumes "fst (main env d) \<noteq> 0"
  shows "fst (main env d) = 1 \<and> validResults env d \<noteq> []
    \<and> \<not> (writable env ValidatedFile \<and> writable env AnomaliesFile \<and> writable env AnalysisFile)"
proof -
  from validateData_extends [of "mergeExchangeData (validResults env d)"] obtain vr where
    vr: "validateData (mergeExchangeData (validResults env d)) = Inr vr"
    by blast
  from assms have ne: "validResults env d \<noteq> []"
    by (auto simp: main_def Let_def split: if_splits)
  with assms vr show ?thesis
    by (auto simp: main_def Let_def saveData_def split: if_splits)
qed

lemma main_analysis:
  assumes "fst (main env d) = 0" and "validResults env d \<noteq> []"
  shows "snd (main env d) AnalysisFile
       = Some (Analysis (analyzeData (mergeExchangeData (validResults env d))))"
proof -
  from validateData_extends [of "mergeExchangeData (validResults env d)"] obtain vr where
    vr: "validateData (mergeExchangeData (validResults env d)) = Inr vr"
    by blast
  with assms show ?thesis
    by (auto simp: main_def Let_def saveData_def split: if_splits)
qed

text \<open>
  C3, as stated, fails. When both fetches time out, the run ends with exit code 0, not
  with a non-zero code. A run in which one exchange returned data and the validated
  dataset cannot be written ends with exit code 1, although a source returned data. And
  when both exchanges answer with no candles, the run overwrites the persisted validated
  dataset with an empty one.
\<close>

theorem all_failed_exits_zero:
  "fst (main all_failed old_disk) = 0
   \<and> fst (main read_only old_disk) = 1
   \<and> old_disk ValidatedFile = Some (Days persisted_days)
   \<and> snd (main all_empty old_disk) ValidatedFile = Some (Days [])
   \<and> persisted_days \<noteq> []"
  by code_simp

text \<open>
  C3, amended. If the fetch of every source raises, the pipeline writes nothing, so that
  the persisted state is untouched, and the run ends with exit code 0. A non-zero exit
  code is 1, and it occurs only when some source's fetch did not raise and one of the
  three result files could not be written.
\<close>

theorem main_exit_code:
  "((\<forall>e \<in> set (fetches env). isl (snd e)) \<longrightarrow> main env d = (0, d))
   \<and> (fst (main env d) \<noteq> 0 \<longrightarrow>
        fst (main env d) = 1
        \<and> (\<exists>e \<in> set (fetches env). \<not> isl (snd e))
        \<and> \<not> (writable env ValidatedFile \<and> writable env AnomaliesFile
              \<and> writable env AnalysisFile))"
  using main_all_failed [of env d] main_exit [of env d] validResults_nonempty [of env d]
  by blast

theorem main_exit_code_witness:
  "list_all (\<lambda>e. isl (snd e)) (fetches all_failed)
   \<and> main all_failed old_disk = (0, old_disk)
   \<and> fst (main read_only old_disk) = 1
   \<and> list_ex (\<lambda>e. \<not> isl (snd e)) (fetches read_only)
   \<and> (writable read_only ValidatedFile \<and> writable read_only AnomaliesFile
        \<and> writable read_only AnalysisFile) = False"
proof -
  have 1: "list_all (\<lambda>e. isl (snd e)) (fetches all_failed)"
    by code_simp
  then have "\<forall>e \<in> set (fetches all_failed). isl (snd e)"
    by (simp add: list_all_iff)
  with main_exit_code [of all_failed old_disk]
  have 2: "main all_failed old_disk = (0, old_disk)"
    by blast
  have 3: "fst (main read_only old_disk) = 1"
    by code_simp
  with main_exit_code [of read_only old_disk]
  have "(\<exists>e \<in> set (fetches read_only). \<not> isl (snd e))
      \<and> \<not> (writable read_only ValidatedFile \<and> writable read_only AnomaliesFile
            \<and> writable read_only AnalysisFile)"
    by simp
  with 1 2 3 show ?thesis
    by (simp add: list_ex_iff)
qed

text \<open>
  C4, as stated, fails: the persisted analysis is computed over the merged sequence. In a
  run whose only day is a first day with a volume, the day is not valid, and the persisted
  analysis still counts it.
\<close>

theorem analysis_not_over_valid:
  "\<not> isl (validateData (mergeExchangeData (validResults one_day old_disk)))
   \<and> valid (projr (validateData (mergeExchangeData (validResults one_day old_disk)))) = []
   \<and> snd (main one_day old_disk) AnalysisFile
       = Some (Analysis (analyzeData (mergeExchangeData (validResults one_day old_disk))))
   \<and> snd (main one_day old_disk) AnalysisFile
       \<noteq> Some (Analysis (analyzeData
            (valid (projr (validateData (mergeExchangeData (validResults one_day old_disk)))))))"
  by code_simp

text \<open>
  C4, amended. In the pipeline composition, the analysis statistics that are persisted are
  computed over the merged sequence, the input of the validation, not over its valid
  sequence.
\<close>

theorem main_analysis_over_merged:
  "fst (main env d) = 0 \<and> validResults env d \<noteq> []
   \<longrightarrow> snd (main env d) AnalysisFile
       = Some (Analysis (analyzeData (mergeExchangeData (validResults env d))))"
  using main_analysis [of env d] by blast

theorem main_analysis_over_merged_witness:
  "fst (main one_day old_disk) = 0
   \<and> map name (map the (validResults one_day old_disk)) = [''Binance'']
   \<and> snd (main one_day old_disk) AnalysisFile
       = Some (Analysis (analyzeData (mergeExchangeData (validResults one_day old_disk))))"
proof -
  have 1: "fst (main one_day old_disk) = 0"
    by code_simp
  have 2: "map name (map the (validResults one_day old_disk)) = [''Binance'']"
    by code_simp
  then have "validResults one_day old_disk \<noteq> []"
    by auto
  with 1 2 main_analysis_over_merged [of one_day old_disk] show ?thesis
    by simp
qed

end
